theory Spec2Isabelle
  imports Complex_Main
begin

section \<open>Conventions\<close>

text \<open>
  The engine is JavaScript. Its numbers are IEEE doubles; here a finite number is a
  \<^typ>\<open>real\<close> and the one special value the code writes down, \<open>Infinity\<close>, is a
  constructor of its own. Node identifiers are array indices and are natural numbers.
  An exception of the source (\<open>TypeError\<close> on reading a property of \<open>undefined\<close>)
  is the left summand of a result; so is \<open>NotANumber\<close>, for a step whose result holds a
  \<open>NaN\<close> that a real cannot carry. A loop that the source does not bound is a
  \<^theory_text>\<open>partial_function\<close> in the option monad: \<open>None\<close> means the call never
  returns.
\<close>

datatype error = TypeError | NotANumber

datatype score = Finite real | Infinity

fun lt :: "score \<Rightarrow> score \<Rightarrow> bool" where
  "lt (Finite a) (Finite b) = (a < b)"
| "lt (Finite a) Infinity = True"
| "lt Infinity b = False"

fun add :: "score \<Rightarrow> real \<Rightarrow> score" where
  "add (Finite a) c = Finite (a + c)"
| "add Infinity c = Infinity"

section \<open>Graph model\<close>

datatype kind = Source | Normal | Chokepoint | Goal

record node =
  node_id :: nat
  node_x :: real
  node_y :: real
  node_type :: kind

text \<open>\<open>Graphics.distance\<close> is \<open>Math.hypot(x2 - x1, y2 - y1)\<close>.\<close>

definition distance :: "real \<Rightarrow> real \<Rightarrow> real \<Rightarrow> real \<Rightarrow> real" where
  "distance x1 y1 x2 y2 = sqrt ((x2 - x1)\<^sup>2 + (y2 - y1)\<^sup>2)"

section \<open>Pathfinding (A*)\<close>

definition heuristic :: "node \<Rightarrow> node \<Rightarrow> real" where
  "heuristic nodeA nodeB = distance (node_x nodeA) (node_y nodeA) (node_x nodeB) (node_y nodeB)"

text \<open>
  \<open>buildGraph\<close> fills a map with the keys \<open>0 .. nodeCount - 1\<close> and pushes both
  directions of every edge. \<open>graph.get(k).push(..)\<close> throws when \<open>k\<close> is not a key.
\<close>

fun buildGraph_edges :: "(nat \<times> nat) list \<Rightarrow> nat list list \<Rightarrow> error + nat list list" where
  "buildGraph_edges [] graph = Inr graph"
| "buildGraph_edges ((a, b) # es) graph =
     (if a < length graph then
        (let graph1 = graph[a := graph ! a @ [b]] in
         if b < length graph1 then buildGraph_edges es (graph1[b := graph1 ! b @ [a]])
         else Inl TypeError)
      else Inl TypeError)"

definition buildGraph :: "(nat \<times> nat) list \<Rightarrow> nat \<Rightarrow> error + nat list list" where
  "buildGraph edges nodeCount = buildGraph_edges edges (replicate nodeCount [])"

text \<open>
  The search state. \<open>openSet\<close> is a JavaScript \<open>Set\<close>: it iterates in insertion order
  and holds no duplicates. \<open>gScore\<close> and \<open>fScore\<close> are maps pre-filled with
  \<open>Infinity\<close> for every node index; they are read only at the start node and at
  neighbours taken from the adjacency lists, which \<open>buildGraph\<close> has checked to be node
  indices, so the maps are total functions here. \<open>draws\<close> counts the calls of
  \<open>Math.random()\<close> made so far, whose results are the sequence \<open>rnd\<close>.
\<close>

record astar_state =
  openSet :: "nat list"
  cameFrom :: "nat \<rightharpoonup> nat"
  gScore :: "nat \<Rightarrow> score"
  fScore :: "nat \<Rightarrow> score"
  draws :: nat

text \<open>The scan for the open node of lowest \<open>fScore\<close>: the first strictly lower wins.\<close>

fun lowestF :: "(nat \<Rightarrow> score) \<Rightarrow> nat list \<Rightarrow> nat option \<Rightarrow> score \<Rightarrow> nat option" where
  "lowestF f [] current lowest = current"
| "lowestF f (n # ns) current lowest =
     (if lt (f n) lowest then lowestF f ns (Some n) (f n) else lowestF f ns current lowest)"

definition setAdd :: "nat list \<Rightarrow> nat \<Rightarrow> nat list" where
  "setAdd s v = (if v \<in> set s then s else s @ [v])"

definition edgeCost :: "node list \<Rightarrow> nat \<Rightarrow> nat \<Rightarrow> real" where
  "edgeCost nodes a b =
     distance (node_x (nodes ! a)) (node_y (nodes ! a)) (node_x (nodes ! b)) (node_y (nodes ! b))"

text \<open>The body of the loop over the neighbours of \<open>current\<close>.\<close>

definition relax ::
  "node list \<Rightarrow> nat \<Rightarrow> bool \<Rightarrow> (nat \<Rightarrow> real) \<Rightarrow> nat \<Rightarrow> astar_state \<Rightarrow> nat \<Rightarrow> astar_state" where
  "relax nodes goal randomize rnd current s neighbor =
     (let cost0 = edgeCost nodes current neighbor;
          cost = (if randomize then cost0 * (1 + (rnd (draws s) * 0.4 - 0.2)) else cost0);
          s1 = (if randomize then s\<lparr>draws := Suc (draws s)\<rparr> else s);
          tentativeGScore = add (gScore s1 current) cost
      in if lt tentativeGScore (gScore s1 neighbor) then
           s1\<lparr>cameFrom := (cameFrom s1)(neighbor \<mapsto> current),
              gScore := (gScore s1)(neighbor := tentativeGScore),
              fScore := (fScore s1)(neighbor :=
                 add tentativeGScore (heuristic (nodes ! neighbor) (nodes ! goal))),
              openSet := setAdd (openSet s1) neighbor\<rparr>
         else s1)"

partial_function (option) reconstructPath ::
  "(nat \<rightharpoonup> nat) \<Rightarrow> nat \<Rightarrow> nat list \<Rightarrow> nat list option" where
  "reconstructPath cf current path =
     (case cf current of
        None \<Rightarrow> Some path
      | Some prev \<Rightarrow> reconstructPath cf prev (prev # path))"

text \<open>
  The main loop. When no open node has a finite \<open>fScore\<close> the scan leaves
  \<open>current = null\<close>; then nothing is deleted, \<open>graph.get(null) || []\<close> is empty and the
  loop runs again on the same state.
\<close>

partial_function (option) astar ::
  "node list \<Rightarrow> nat list list \<Rightarrow> nat \<Rightarrow> bool \<Rightarrow> (nat \<Rightarrow> real) \<Rightarrow> astar_state \<Rightarrow> nat list option" where
  "astar nodes graph goal randomize rnd s =
     (if openSet s = [] then Some []
      else (case lowestF (fScore s) (openSet s) None Infinity of
              None \<Rightarrow> astar nodes graph goal randomize rnd s
            | Some current \<Rightarrow>
                if current = goal then reconstructPath (cameFrom s) current [current]
                else astar nodes graph goal randomize rnd
                       (foldl (relax nodes goal randomize rnd current)
                          (s\<lparr>openSet := removeAll current (openSet s)\<rparr>)
                          (if current < length graph then graph ! current else []))))"

definition initialState :: "node list \<Rightarrow> nat \<Rightarrow> nat \<Rightarrow> astar_state" where
  "initialState nodes start goal =
     \<lparr>openSet = [start], cameFrom = Map.empty,
      gScore = (\<lambda>i. Infinity)(start := Finite 0),
      fScore = (\<lambda>i. Infinity)(start := Finite (heuristic (nodes ! start) (nodes ! goal))),
      draws = 0\<rparr>"

definition findPath ::
  "node list \<Rightarrow> (nat \<times> nat) list \<Rightarrow> nat \<Rightarrow> nat \<Rightarrow> bool \<Rightarrow> (nat \<Rightarrow> real) \<Rightarrow> (error + nat list) option" where
  "findPath nodes edges start goal randomize rnd =
     (if start = goal then Some (Inr [start])
      else (case buildGraph edges (length nodes) of
              Inl e \<Rightarrow> Some (Inl e)
            | Inr graph \<Rightarrow>
                if start < length nodes \<and> goal < length nodes then
                  map_option Inr (astar nodes graph goal randomize rnd (initialState nodes start goal))
                else Some (Inl TypeError)))"

section \<open>Agents (Enemy)\<close>

record enemy_config =
  cfg_health :: score
  cfg_speed :: real
  cfg_size :: real
  cfg_stealthy :: bool
  cfg_legitimate :: bool

definition ENEMIES :: "string \<Rightarrow> enemy_config option" where
  "ENEMIES type =
     (if type = ''BASIC'' then Some \<lparr>cfg_health = Finite 20, cfg_speed = 1.5, cfg_size = 8, cfg_stealthy = False, cfg_legitimate = False\<rparr>
      else if type = ''FAST'' then Some \<lparr>cfg_health = Finite 12, cfg_speed = 4.0, cfg_size = 7, cfg_stealthy = False, cfg_legitimate = False\<rparr>
      else if type = ''TANK'' then Some \<lparr>cfg_health = Finite 50, cfg_speed = 0.8, cfg_size = 12, cfg_stealthy = False, cfg_legitimate = False\<rparr>
      else if type = ''STEALTH'' then Some \<lparr>cfg_health = Finite 18, cfg_speed = 2.5, cfg_size = 7, cfg_stealthy = True, cfg_legitimate = False\<rparr>
      else if type = ''ENCRYPTED'' then Some \<lparr>cfg_health = Finite 25, cfg_speed = 1.8, cfg_size = 9, cfg_stealthy = False, cfg_legitimate = False\<rparr>
      else if type = ''ADAPTIVE'' then Some \<lparr>cfg_health = Finite 30, cfg_speed = 2.0, cfg_size = 10, cfg_stealthy = False, cfg_legitimate = False\<rparr>
      else if type = ''LEGITIMATE'' then Some \<lparr>cfg_health = Infinity, cfg_speed = 1.5, cfg_size = 8, cfg_stealthy = False, cfg_legitimate = True\<rparr>
      else None)"

record enemy =
  e_type :: string
  e_config :: "enemy_config option"
  e_path :: "nat list"
  e_nodes :: "node list"
  e_edges :: "(nat \<times> nat) list option"
  currentPathIndex :: nat
  e_x :: real
  e_y :: real
  targetX :: real
  targetY :: real
  health :: score
  speed :: real
  alive :: bool
  reachedGoal :: bool
  slowFactor :: real
  slowTimer :: real
  attractionTimer :: real
  attractionX :: real
  attractionY :: real
  attractedToNode :: "nat option"
  originalPath :: "nat list option"
  processedHoneypots :: "nat set"
  revealed :: bool

text \<open>
  \<open>nodes[path[k]]\<close>: \<open>path[k]\<close> is \<open>undefined\<close> past the end of the path, and
  \<open>nodes[undefined]\<close> is \<open>undefined\<close>, as is \<open>nodes[i]\<close> past the end of the nodes.
\<close>

definition nodeAt :: "node list \<Rightarrow> nat list \<Rightarrow> nat \<Rightarrow> node option" where
  "nodeAt nodes path k =
     (if k < length path \<and> path ! k < length nodes then Some (nodes ! (path ! k)) else None)"

text \<open>
  The constructor. It reads \<open>nodes[path[0]].x\<close> and \<open>nodes[path[1]].x\<close> before any field
  of the configuration; each read throws when the node is \<open>undefined\<close>. The jitter
  offsets and the colour are for drawing only and are left out.
\<close>

definition newEnemy ::
  "string \<Rightarrow> nat list \<Rightarrow> node list \<Rightarrow> (nat \<times> nat) list option \<Rightarrow> error + enemy" where
  "newEnemy type path nodes edges =
     (case nodeAt nodes path 0 of
        None \<Rightarrow> Inl TypeError
      | Some n0 \<Rightarrow>
          (case nodeAt nodes path 1 of
             None \<Rightarrow> Inl TypeError
           | Some n1 \<Rightarrow>
               (case ENEMIES type of
                  None \<Rightarrow> Inl TypeError
                | Some cfg \<Rightarrow>
                    Inr \<lparr>e_type = type, e_config = Some cfg, e_path = path, e_nodes = nodes,
                         e_edges = edges, currentPathIndex = 0,
                         e_x = node_x n0, e_y = node_y n0,
                         targetX = node_x n1, targetY = node_y n1,
                         health = cfg_health cfg, speed = cfg_speed cfg,
                         alive = True, reachedGoal = False,
                         slowFactor = 1.0, slowTimer = 0,
                         attractionTimer = 0, attractionX = 0, attractionY = 0,
                         attractedToNode = None, originalPath = None,
                         processedHoneypots = {}, revealed = (\<not> cfg_stealthy cfg)\<rparr>)))"


text \<open>
  C10. Constructing an agent needs a path of at least two nodes: the constructor reads
  \<open>nodes[path[1]]\<close> unconditionally, so on every path of fewer than two nodes (the
  one-node path that \<open>findPath\<close> returns when start and goal coincide is such a path)
  the construction throws on the missing node; a path whose first two entries are nodes,
  with a configured type, constructs an agent.
\<close>

theorem newEnemy_needs_two_nodes:
  "(length path < 2 \<longrightarrow> newEnemy type path nodes edges = Inl TypeError)
   \<and> (\<forall>p. findPath nodes es s s randomize rnd = Some (Inr p)
          \<longrightarrow> p = [s] \<and> newEnemy type p nodes edges = Inl TypeError)
   \<and> (\<forall>e. newEnemy type path nodes edges = Inr e \<longrightarrow> 2 \<le> length path)
   \<and> (2 \<le> length path \<and> path ! 0 < length nodes \<and> path ! 1 < length nodes
        \<and> ENEMIES type \<noteq> None \<longrightarrow> (\<exists>e. newEnemy type path nodes edges = Inr e))"
proof -
  have short: "newEnemy type p nodes edges = Inl TypeError" if "length p < 2" for p
  proof (cases "nodeAt nodes p 0")
    case None
    then show ?thesis by (simp add: newEnemy_def)
  next
    case (Some n0)
    from that have "nodeAt nodes p 1 = None" by (simp add: nodeAt_def)
    with Some show ?thesis by (simp add: newEnemy_def)
  qed
  have same: "findPath nodes es s s randomize rnd = Some (Inr [s])"
    by (simp add: findPath_def)
  have built: "\<exists>e. newEnemy type path nodes edges = Inr e"
    if "2 \<le> length path" "path ! 0 < length nodes" "path ! 1 < length nodes"
       "ENEMIES type \<noteq> None"
    using that by (auto simp: newEnemy_def nodeAt_def)
  have c1: "length path < 2 \<longrightarrow> newEnemy type path nodes edges = Inl TypeError"
    using short [of path] by blast
  have c2: "\<forall>p. findPath nodes es s s randomize rnd = Some (Inr p)
          \<longrightarrow> p = [s] \<and> newEnemy type p nodes edges = Inl TypeError"
    using short [of "[s]"] same by simp
  have c3: "\<forall>e. newEnemy type path nodes edges = Inr e \<longrightarrow> 2 \<le> length path"
  proof (intro allI impI)
    fix e assume ok: "newEnemy type path nodes edges = Inr e"
    show "2 \<le> length path"
    proof (rule ccontr)
      assume "\<not> 2 \<le> length path"
      then have "length path < 2" by simp
      with short [of path] ok show False by simp
    qed
  qed
  from c1 c2 c3 built show ?thesis by blast
qed

theorem newEnemy_needs_two_nodes_witness:
  "length [0::nat] < 2
   \<and> newEnemy ''BASIC'' [0] [\<lparr>node_id = 0, node_x = 0, node_y = 0, node_type = Source\<rparr>] None
       = Inl TypeError
   \<and> findPath [\<lparr>node_id = 0, node_x = 0, node_y = 0, node_type = Source\<rparr>] [] 0 0 False (\<lambda>k. 0)
       = Some (Inr [0])"
  using newEnemy_needs_two_nodes
    [of "[0]" "''BASIC''" "[\<lparr>node_id = 0, node_x = 0, node_y = 0, node_type = Source\<rparr>]" None
        "[]" 0 False "\<lambda>k. 0"]
  by (simp add: findPath_def)


section \<open>LearningAI (EconomicRL): tabular Q-learning\<close>

datatype tower_type = Firewall | IDS | Honeypot

record tower =
  tower_x :: real
  tower_y :: real
  tower_type :: tower_type
  tower_damage :: real
  tower_range :: real
  cooldownMax :: real

datatype action = AGGRESSIVE | BALANCED | DEFENSIVE

definition actions :: "action list" where
  "actions = [AGGRESSIVE, BALANCED, DEFENSIVE]"

text \<open>What the learner reads of its level manager.\<close>

record level =
  credits :: real
  lm_chokepoints :: "nat list"
  lm_nodes :: "node list"
  currentTowers :: "tower list"
  packetsBlocked :: nat
  packetsLeaked :: nat

record waveResult =
  leaked :: real
  blocked :: real

text \<open>
  The Q-table maps a state key to a row of one value per action; every row the code
  creates holds all three actions. \<open>rl_draws\<close> counts the calls of \<open>Math.random()\<close>.
\<close>

record rl =
  Q :: "string \<rightharpoonup> (action \<Rightarrow> real)"
  epsilon :: real
  alpha :: real
  gamma :: real
  currentState :: "string option"
  currentAction :: "action option"
  episodeReward :: real
  totalEpisodes :: nat
  rl_draws :: nat

definition calculateSuccessRate :: "level \<Rightarrow> real" where
  "calculateSuccessRate lm =
     (let total = packetsBlocked lm + packetsLeaked lm
      in if total = 0 then 0 else (real (packetsBlocked lm) / real total) * 100)"

text \<open>
  The defender posture by tower counts, as \<open>getState\<close> and \<open>calculateOptimalAttack\<close>
  both compute it.
\<close>

datatype posture = FW_HEAVY | IDS_HEAVY | BALANCED_POSTURE

definition postureName :: "posture \<Rightarrow> string" where
  "postureName p =
     (case p of FW_HEAVY \<Rightarrow> ''FW_HEAVY'' | IDS_HEAVY \<Rightarrow> ''IDS_HEAVY''
      | BALANCED_POSTURE \<Rightarrow> ''BALANCED'')"

definition towerRatio :: "tower list \<Rightarrow> posture" where
  "towerRatio towers =
     (let fCount = length (filter (\<lambda>t. tower_type t = Firewall) towers);
          iCount = length (filter (\<lambda>t. tower_type t = IDS) towers)
      in if real fCount > real iCount * 1.5 then FW_HEAVY
         else if iCount > fCount then IDS_HEAVY else BALANCED_POSTURE)"

text \<open>
  \<open>chokepoints.length / nodes.length > 0.2\<close>: with no node the quotient is \<open>NaN\<close> or
  \<open>Infinity\<close>, and the comparison holds exactly when there is a chokepoint.
\<close>

definition getState :: "level \<Rightarrow> string" where
  "getState lm =
     (let creditState = (if credits lm < 500 then ''LOW''
                         else if credits lm < 1500 then ''MED'' else ''HIGH'');
          densityState =
            (if (if length (lm_nodes lm) = 0 then 0 < length (lm_chokepoints lm)
                 else real (length (lm_chokepoints lm)) / real (length (lm_nodes lm)) > 0.2)
             then ''DENSE'' else ''SPARSE'');
          performanceState =
            (if calculateSuccessRate lm > 70 then ''DEFENDER_STRONG'' else ''ATTACKER_STRONG'')
      in creditState @ ''_'' @ densityState @ ''_'' @ postureName (towerRatio (currentTowers lm))
           @ ''_'' @ performanceState)"

text \<open>
  \<open>getBestAction\<close> is the one place where a missing row is created: three draws of
  \<open>Math.random() * 2\<close>, in the order of \<open>actions\<close>.
\<close>

definition initRow :: "(nat \<Rightarrow> real) \<Rightarrow> nat \<Rightarrow> action \<Rightarrow> real" where
  "initRow rnd k a =
     (case a of AGGRESSIVE \<Rightarrow> rnd k * 2 | BALANCED \<Rightarrow> rnd (k + 1) * 2 | DEFENSIVE \<Rightarrow> rnd (k + 2) * 2)"

definition bestOf :: "(action \<Rightarrow> real) \<Rightarrow> action" where
  "bestOf qValues =
     fst (foldl (\<lambda>(bestAction, bestValue) a.
                   if qValues a > bestValue then (a, qValues a) else (bestAction, bestValue))
            (AGGRESSIVE, qValues AGGRESSIVE) actions)"

definition getBestAction :: "(nat \<Rightarrow> real) \<Rightarrow> string \<Rightarrow> rl \<Rightarrow> action \<times> rl" where
  "getBestAction rnd state r =
     (case Q r state of
        None \<Rightarrow>
          (let row = initRow rnd (rl_draws r)
           in (bestOf row, r\<lparr>Q := (Q r)(state \<mapsto> row), rl_draws := rl_draws r + 3\<rparr>))
      | Some qValues \<Rightarrow> (bestOf qValues, r))"

text \<open>
  \<open>actions[Math.floor(Math.random() * actions.length)]\<close> is \<open>undefined\<close> outside the list.
\<close>

definition selectAction :: "(nat \<Rightarrow> real) \<Rightarrow> string \<Rightarrow> rl \<Rightarrow> action option \<times> rl" where
  "selectAction rnd state r =
     (if rnd (rl_draws r) < epsilon r then
        (let i = \<lfloor>rnd (rl_draws r + 1) * real (length actions)\<rfloor>
         in (if 0 \<le> i \<and> nat i < length actions then Some (actions ! nat i) else None,
             r\<lparr>rl_draws := rl_draws r + 2\<rparr>))
      else (let (a, r') = getBestAction rnd state (r\<lparr>rl_draws := rl_draws r + 1\<rparr>)
            in (Some a, r')))"

definition startEpisode :: "(nat \<Rightarrow> real) \<Rightarrow> level \<Rightarrow> rl \<Rightarrow> action option \<times> rl" where
  "startEpisode rnd lm r =
     (let st = getState lm;
          (a, r') = selectAction rnd st (r\<lparr>currentState := Some st\<rparr>)
      in (a, r'\<lparr>currentAction := a, totalEpisodes := Suc (totalEpisodes r')\<rparr>))"

definition calculateReward :: "level \<Rightarrow> waveResult \<Rightarrow> real" where
  "calculateReward lm w =
     (let r0 = leaked w * 10 - blocked w * 5;
          r1 = (if credits lm \<le> 0 then r0 + 50 else r0)
      in if credits lm > 2000 then r1 - 20 else r1)"

definition maxQ :: "(action \<Rightarrow> real) \<Rightarrow> real" where
  "maxQ row = Max (set (map row actions))"

text \<open>
  \<open>updateQTable\<close>. \<open>this.Q[s][a]\<close> throws when the row \<open>this.Q[s]\<close> is missing, for the
  current state and for the next state alike. The write to the external store after one
  more draw and the notification are outside the table.
\<close>

definition updateQTable :: "level \<Rightarrow> waveResult \<Rightarrow> rl \<Rightarrow> error + rl" where
  "updateQTable lm w r =
     (case (currentState r, currentAction r) of
        (Some s, Some a) \<Rightarrow>
          (let reward = calculateReward lm w;
               r1 = r\<lparr>episodeReward := episodeReward r + reward\<rparr>;
               nextState = getState lm
           in case Q r1 s of
                None \<Rightarrow> Inl TypeError
              | Some row \<Rightarrow>
                  (let currentQ = row a
                   in case Q r1 nextState of
                        None \<Rightarrow> Inl TypeError
                      | Some nextRow \<Rightarrow>
                          (let maxNextQ = maxQ nextRow;
                               newQ = currentQ + alpha r1 * (reward + gamma r1 * maxNextQ - currentQ)
                           in Inr (r1\<lparr>Q := (Q r1)(s \<mapsto> row(a := newQ)),
                                      rl_draws := rl_draws r1 + 1\<rparr>))))
      | _ \<Rightarrow> Inr r)"

text \<open>
  A fresh learner: the constructor with \<open>Config.RL_PARAMS\<close> (\<open>epsilon = 0.1\<close>,
  \<open>alpha = 0.1\<close>, \<open>gamma = 0.95\<close>) and no saved table.
\<close>

definition newEconomicRL :: rl where
  "newEconomicRL =
     \<lparr>Q = Map.empty, epsilon = 0.1, alpha = 0.1, gamma = 0.95,
      currentState = None, currentAction = None, episodeReward = 0, totalEpisodes = 0,
      rl_draws = 0\<rparr>"

text \<open>Repeating the wave update: \<open>n\<close> calls of \<open>updateQTable\<close> in a row.\<close>

fun updates :: "nat \<Rightarrow> level \<Rightarrow> waveResult \<Rightarrow> rl \<Rightarrow> error + rl" where
  "updates 0 lm w r = Inr r"
| "updates (Suc n) lm w r =
     (case updateQTable lm w r of Inl e \<Rightarrow> Inl e | Inr r' \<Rightarrow> updates n lm w r')"

definition qValue :: "rl \<Rightarrow> string \<Rightarrow> action \<Rightarrow> real option" where
  "qValue r s a = map_option (\<lambda>row. row a) (Q r s)"


subsection \<open>The Q-update as a contraction\<close>

lemma maxQ_at:
  assumes "\<forall>a'. a' \<noteq> a \<longrightarrow> row a' \<le> row a"
  shows "maxQ row = row a"
proof -
  have fin: "finite (set (map row actions))" by simp
  have mem: "row a \<in> set (map row actions)"
    by (cases a) (simp_all add: actions_def)
  have ub: "\<And>v. v \<in> set (map row actions) \<Longrightarrow> v \<le> row a"
    using assms by (auto simp: actions_def)
  show ?thesis unfolding maxQ_def
    by (rule Max_eqI) (use fin mem ub in auto)
qed

lemma updateQTable_fixed_point_step:
  assumes cs: "currentState r = Some s" and ca: "currentAction r = Some a"
    and same: "getState lm = s" and row: "Q r s = Some row"
    and top: "\<forall>a'. a' \<noteq> a \<longrightarrow> row a' \<le> row a"
  shows "\<exists>r'. updateQTable lm w r = Inr r'
          \<and> currentState r' = Some s \<and> currentAction r' = Some a
          \<and> alpha r' = alpha r \<and> gamma r' = gamma r
          \<and> Q r' s = Some (row(a := row a + alpha r * (calculateReward lm w + gamma r * row a - row a)))"
  using assms maxQ_at [OF top]
  by (simp add: updateQTable_def Let_def)

lemma contraction_step:
  fixes q :: real
  assumes "g \<noteq> 1"
  shows "(q + al * (R + g * q - q)) - R / (1 - g) = (1 - al * (1 - g)) * (q - R / (1 - g))"
proof -
  have "1 - g \<noteq> 0" using assms by simp
  then show ?thesis by (simp add: field_simps)
qed

lemma updates_closed_form:
  assumes "currentState r = Some s" "currentAction r = Some a"
    and "getState lm = s" and "Q r s = Some row"
    and "0 < alpha r" "alpha r \<le> 1" "0 \<le> gamma r" "gamma r < 1"
    and "\<forall>a'. a' \<noteq> a \<longrightarrow> row a' \<le> row a \<and> row a' \<le> calculateReward lm w / (1 - gamma r)"
  shows "\<exists>r'. updates n lm w r = Inr r'
           \<and> qValue r' s a = Some (calculateReward lm w / (1 - gamma r)
                + (1 - alpha r * (1 - gamma r)) ^ n * (row a - calculateReward lm w / (1 - gamma r)))"
  using assms
proof (induction n arbitrary: r row)
  case 0
  then show ?case by (simp add: qValue_def)
next
  case (Suc n)
  define R where "R = calculateReward lm w"
  define k where "k = 1 - alpha r * (1 - gamma r)"
  define q1 where "q1 = row a + alpha r * (R + gamma r * row a - row a)"
  have top: "\<forall>a'. a' \<noteq> a \<longrightarrow> row a' \<le> row a" using Suc.prems(9) by blast
  from updateQTable_fixed_point_step [OF Suc.prems(1) Suc.prems(2) Suc.prems(3) Suc.prems(4) top, of w]
  obtain r1 where r1: "updateQTable lm w r = Inr r1"
      "currentState r1 = Some s" "currentAction r1 = Some a"
      "alpha r1 = alpha r" "gamma r1 = gamma r"
      "Q r1 s = Some (row(a := q1))"
    unfolding q1_def R_def by blast
  have g1: "gamma r \<noteq> 1" using Suc.prems(8) by simp
  have dist: "q1 - R / (1 - gamma r) = k * (row a - R / (1 - gamma r))"
    unfolding q1_def k_def by (rule contraction_step [OF g1])
  have k0: "0 \<le> k" and k1: "k \<le> 1"
  proof -
    have "0 < 1 - gamma r" "1 - gamma r \<le> 1" using Suc.prems(7,8) by simp_all
    then have "0 \<le> alpha r * (1 - gamma r)" "alpha r * (1 - gamma r) \<le> 1"
      using Suc.prems(5,6) by (simp_all add: mult_le_one)
    then show "0 \<le> k" "k \<le> 1" unfolding k_def by simp_all
  qed
  have q1_conv: "q1 = k * row a + (1 - k) * (R / (1 - gamma r))"
  proof -
    define L where "L = R / (1 - gamma r)"
    have "q1 = L + k * (row a - L)" using dist unfolding L_def by simp
    also have "\<dots> = k * row a + (1 - k) * L" by (simp add: algebra_simps)
    finally show ?thesis unfolding L_def .
  qed
  have others1: "\<forall>a'. a' \<noteq> a \<longrightarrow> (row(a := q1)) a' \<le> (row(a := q1)) a
        \<and> (row(a := q1)) a' \<le> calculateReward lm w / (1 - gamma r1)"
  proof (intro allI impI)
    fix a' assume ne: "a' \<noteq> a"
    then have le1: "row a' \<le> row a" and le2: "row a' \<le> R / (1 - gamma r)"
      using Suc.prems(9) unfolding R_def by blast+
    have "row a' = k * row a' + (1 - k) * row a'" by (simp add: algebra_simps)
    also have "\<dots> \<le> k * row a + (1 - k) * (R / (1 - gamma r))"
      using le1 le2 k0 k1 by (intro add_mono mult_left_mono) simp_all
    finally have "row a' \<le> q1" using q1_conv by simp
    with ne le2 show "(row(a := q1)) a' \<le> (row(a := q1)) a
        \<and> (row(a := q1)) a' \<le> calculateReward lm w / (1 - gamma r1)"
      by (simp add: r1(5) R_def)
  qed
  have al1: "0 < alpha r1" "alpha r1 \<le> 1" "0 \<le> gamma r1" "gamma r1 < 1"
    using Suc.prems(5-8) r1(4,5) by simp_all
  from Suc.IH [OF r1(2) r1(3) Suc.prems(3) r1(6) al1 others1]
  obtain r' where r': "updates n lm w r1 = Inr r'"
     "qValue r' s a = Some (calculateReward lm w / (1 - gamma r1)
                + (1 - alpha r1 * (1 - gamma r1)) ^ n * ((row(a := q1)) a - calculateReward lm w / (1 - gamma r1)))"
    by blast
  have "updates (Suc n) lm w r = Inr r'" using r1(1) r'(1) by simp
  moreover have "qValue r' s a = Some (R / (1 - gamma r) + k ^ Suc n * (row a - R / (1 - gamma r)))"
  proof -
    have "qValue r' s a = Some (R / (1 - gamma r) + k ^ n * (q1 - R / (1 - gamma r)))"
      using r'(2) by (simp add: r1(4,5) R_def k_def)
    also have "k ^ n * (q1 - R / (1 - gamma r)) = k ^ Suc n * (row a - R / (1 - gamma r))"
      by (simp only: dist power_Suc2 mult.assoc)
    finally show ?thesis .
  qed
  ultimately show ?case unfolding R_def k_def by blast
qed

text \<open>
  C5. Repeating the Q-update \<open>Q(s,a) \<leftarrow> Q(s,a) + \<alpha>(r + \<gamma> max Q(s',.) - Q(s,a))\<close> with a constant
  reward, the next state being the current one and the updated entry the maximal one of
  its row (the other entries lie below it and below \<open>r / (1 - \<gamma>)\<close>, so it stays
  maximal): every update returns, the values of \<open>Q(s,a)\<close> follow the update rule, each
  step multiplies the distance to \<open>r / (1 - \<gamma>)\<close> by \<open>1 - \<alpha>(1 - \<gamma>)\<close>, and the values
  converge to \<open>r / (1 - \<gamma>)\<close>.
\<close>

theorem q_update_converges:
  assumes cs: "currentState r = Some s" and ca: "currentAction r = Some a"
    and same: "getState lm = s" and row: "Q r s = Some row"
    and al: "0 < alpha r" "alpha r \<le> 1" and ga: "0 \<le> gamma r" "gamma r < 1"
    and others: "\<forall>a'. a' \<noteq> a \<longrightarrow> row a' \<le> row a \<and> row a' \<le> calculateReward lm w / (1 - gamma r)"
  shows "\<exists>f. f 0 = row a
           \<and> (\<forall>n. \<exists>r'. updates n lm w r = Inr r' \<and> qValue r' s a = Some (f n))
           \<and> (\<forall>n. f (Suc n) = f n + alpha r * (calculateReward lm w + gamma r * f n - f n))
           \<and> (\<forall>n. \<bar>f (Suc n) - calculateReward lm w / (1 - gamma r)\<bar>
                  = (1 - alpha r * (1 - gamma r)) * \<bar>f n - calculateReward lm w / (1 - gamma r)\<bar>)
           \<and> f \<longlonglongrightarrow> calculateReward lm w / (1 - gamma r)"
proof -
  define R where "R = calculateReward lm w"
  define k where "k = 1 - alpha r * (1 - gamma r)"
  define L where "L = R / (1 - gamma r)"
  define f where "f n = L + k ^ n * (row a - L)" for n
  have k0: "0 \<le> k" and k1: "k < 1"
  proof -
    have "0 < 1 - gamma r" "1 - gamma r \<le> 1" using ga by simp_all
    then have "0 < alpha r * (1 - gamma r)" "alpha r * (1 - gamma r) \<le> 1"
      using al by (simp_all add: mult_le_one)
    then show "0 \<le> k" "k < 1" unfolding k_def by simp_all
  qed
  have g1: "gamma r \<noteq> 1" using ga by simp
  have f0: "f 0 = row a" by (simp add: f_def)
  have run: "\<exists>r'. updates n lm w r = Inr r' \<and> qValue r' s a = Some (f n)" for n
    using updates_closed_form [OF cs ca same row al ga others, of n]
    by (simp add: f_def L_def R_def k_def)
  have shrink: "f (Suc n) - L = k * (f n - L)" for n
    by (simp add: f_def)
  have rule: "f (Suc n) = f n + alpha r * (R + gamma r * f n - f n)" for n
  proof -
    have "(f n + alpha r * (R + gamma r * f n - f n)) - L = k * (f n - L)"
      unfolding L_def k_def by (rule contraction_step [OF g1])
    with shrink [of n] show ?thesis by simp
  qed
  have dist: "\<bar>f (Suc n) - L\<bar> = k * \<bar>f n - L\<bar>" for n
    using shrink [of n] k0 by (simp add: abs_mult)
  have kn: "(\<lambda>n. k ^ n) \<longlonglongrightarrow> 0"
    using k0 k1 by (intro LIMSEQ_realpow_zero)
  have "(\<lambda>n. L + k ^ n * (row a - L)) \<longlonglongrightarrow> L + 0 * (row a - L)"
    by (intro tendsto_intros kn)
  then have lim: "f \<longlonglongrightarrow> L" by (simp add: f_def [abs_def])
  from f0 run rule dist lim show ?thesis
    unfolding R_def k_def L_def by blast
qed

theorem q_update_converges_witness:
  "\<exists>f. f 0 = 0
     \<and> (\<forall>n. \<exists>r'. updates n
            \<lparr>credits = 1000, lm_chokepoints = [], lm_nodes = [], currentTowers = [],
               packetsBlocked = 0, packetsLeaked = 0\<rparr>
            \<lparr>leaked = 1, blocked = 0\<rparr>
            (newEconomicRL\<lparr>Q := [''MED_SPARSE_BALANCED_ATTACKER_STRONG'' \<mapsto> (\<lambda>a. 0)],
               currentState := Some ''MED_SPARSE_BALANCED_ATTACKER_STRONG'',
               currentAction := Some BALANCED\<rparr>) = Inr r'
          \<and> qValue r' ''MED_SPARSE_BALANCED_ATTACKER_STRONG'' BALANCED = Some (f n))
     \<and> f \<longlonglongrightarrow> 200"
proof -
  let ?lm = "\<lparr>credits = 1000, lm_chokepoints = [], lm_nodes = [], currentTowers = [],
               packetsBlocked = 0, packetsLeaked = 0\<rparr>"
  let ?w = "\<lparr>leaked = 1, blocked = 0\<rparr>"
  let ?s = "''MED_SPARSE_BALANCED_ATTACKER_STRONG''"
  let ?r = "newEconomicRL\<lparr>Q := [?s \<mapsto> (\<lambda>a. 0)], currentState := Some ?s,
               currentAction := Some BALANCED\<rparr>"
  have st: "getState ?lm = ?s"
    by (simp add: getState_def towerRatio_def postureName_def calculateSuccessRate_def)
  have rw: "calculateReward ?lm ?w = 10" by (simp add: calculateReward_def)
  have lim: "calculateReward ?lm ?w / (1 - gamma ?r) = 200"
    by (simp add: rw newEconomicRL_def)
  have "\<exists>f. f 0 = (\<lambda>a. 0::real) BALANCED
           \<and> (\<forall>n. \<exists>r'. updates n ?lm ?w ?r = Inr r' \<and> qValue r' ?s BALANCED = Some (f n))
           \<and> (\<forall>n. f (Suc n) = f n + alpha ?r * (calculateReward ?lm ?w + gamma ?r * f n - f n))
           \<and> (\<forall>n. \<bar>f (Suc n) - calculateReward ?lm ?w / (1 - gamma ?r)\<bar>
                  = (1 - alpha ?r * (1 - gamma ?r)) * \<bar>f n - calculateReward ?lm ?w / (1 - gamma ?r)\<bar>)
           \<and> f \<longlonglongrightarrow> calculateReward ?lm ?w / (1 - gamma ?r)"
  proof (rule q_update_converges [where s = ?s])
    show "currentState ?r = Some ?s" by simp
    show "currentAction ?r = Some BALANCED" by simp
    show "getState ?lm = ?s" by (rule st)
    show "Q ?r ?s = Some (\<lambda>a. 0)" by simp
    show "0 < alpha ?r" "alpha ?r \<le> 1" "0 \<le> gamma ?r" "gamma ?r < 1"
      by (simp_all add: newEconomicRL_def)
    show "\<forall>a'. a' \<noteq> BALANCED \<longrightarrow> (\<lambda>a. 0::real) a' \<le> (\<lambda>a. 0) BALANCED
        \<and> (\<lambda>a. 0::real) a' \<le> calculateReward ?lm ?w / (1 - gamma ?r)"
      using lim by (simp add: rw newEconomicRL_def)
  qed
  then obtain f where f: "f 0 = 0"
      "\<forall>n. \<exists>r'. updates n ?lm ?w ?r = Inr r' \<and> qValue r' ?s BALANCED = Some (f n)"
      "f \<longlonglongrightarrow> calculateReward ?lm ?w / (1 - gamma ?r)"
    by auto
  from f(3) have "f \<longlonglongrightarrow> 200" by (simp only: lim)
  with f(1,2) show ?thesis by blast
qed

text \<open>
  C6. The claim that selecting an action and then updating never reads a missing row
  fails on the code. From a fresh table, the exploration branch of \<open>selectAction\<close>
  returns without creating the row of the state, and \<open>updateQTable\<close> then throws on
  \<open>this.Q[currentState]\<close>; on the exploitation branch the row of the current state is
  created, and \<open>updateQTable\<close> throws on \<open>this.Q[nextState]\<close> as soon as the next state
  is a new one.
\<close>

theorem updateQTable_reads_missing_row:
  "fst (startEpisode (\<lambda>k. if k = 0 then 0.05 else 0.5)
          \<lparr>credits = 1000, lm_chokepoints = [], lm_nodes = [], currentTowers = [],
             packetsBlocked = 0, packetsLeaked = 0\<rparr> newEconomicRL) = Some BALANCED
   \<and> updateQTable
        \<lparr>credits = 1000, lm_chokepoints = [], lm_nodes = [], currentTowers = [],
           packetsBlocked = 0, packetsLeaked = 0\<rparr>
        \<lparr>leaked = 1, blocked = 0\<rparr>
        (snd (startEpisode (\<lambda>k. if k = 0 then 0.05 else 0.5)
           \<lparr>credits = 1000, lm_chokepoints = [], lm_nodes = [], currentTowers = [],
              packetsBlocked = 0, packetsLeaked = 0\<rparr> newEconomicRL)) = Inl TypeError
   \<and> fst (startEpisode (\<lambda>k. 0.5)
          \<lparr>credits = 1000, lm_chokepoints = [], lm_nodes = [], currentTowers = [],
             packetsBlocked = 0, packetsLeaked = 0\<rparr> newEconomicRL) = Some AGGRESSIVE
   \<and> updateQTable
        \<lparr>credits = 400, lm_chokepoints = [], lm_nodes = [], currentTowers = [],
           packetsBlocked = 0, packetsLeaked = 0\<rparr>
        \<lparr>leaked = 1, blocked = 0\<rparr>
        (snd (startEpisode (\<lambda>k. 0.5)
           \<lparr>credits = 1000, lm_chokepoints = [], lm_nodes = [], currentTowers = [],
              packetsBlocked = 0, packetsLeaked = 0\<rparr> newEconomicRL)) = Inl TypeError"
  by (simp add: startEpisode_def selectAction_def getBestAction_def updateQTable_def
      getState_def towerRatio_def postureName_def calculateSuccessRate_def newEconomicRL_def actions_def
      bestOf_def initRow_def Let_def)


section \<open>EquilibriumAI (PerfectAI)\<close>

text \<open>
  A tower takes its combat values from \<open>Config.TOWERS\<close> when it is constructed.
\<close>

definition newTower :: "real \<Rightarrow> real \<Rightarrow> tower_type \<Rightarrow> tower" where
  "newTower x y type =
     (case type of
        Firewall \<Rightarrow> \<lparr>tower_x = x, tower_y = y, tower_type = type, tower_damage = 18,
                      tower_range = 120, cooldownMax = 750\<rparr>
      | IDS \<Rightarrow> \<lparr>tower_x = x, tower_y = y, tower_type = type, tower_damage = 4,
                 tower_range = 150, cooldownMax = 500\<rparr>
      | Honeypot \<Rightarrow> \<lparr>tower_x = x, tower_y = y, tower_type = type, tower_damage = 1,
                      tower_range = 250, cooldownMax = 200\<rparr>)"

record coverage =
  damagePerSecond :: real
  firepower :: "tower_type \<Rightarrow> real"
  isCovered :: bool

text \<open>
  \<open>analyzeTowerCoverage\<close>: one entry per node, in node order. The quotient
  \<open>1 / (cooldownMax / 1000)\<close> is the real quotient, which is the source's value for
  every nonzero \<open>cooldownMax\<close>.
\<close>

definition nodeCoverage :: "tower list \<Rightarrow> node \<Rightarrow> coverage" where
  "nodeCoverage towers n =
     (let inRange = filter (\<lambda>t. distance (tower_x t) (tower_y t) (node_x n) (node_y n)
                                  \<le> tower_range t) towers;
          totalDamage = foldl (\<lambda>acc t. acc + tower_damage t * (1 / (cooldownMax t / 1000))) 0 inRange
      in \<lparr>damagePerSecond = totalDamage,
          firepower = (\<lambda>ty. foldl (\<lambda>acc t. if tower_type t = ty then acc + tower_damage t else acc)
                               0 inRange),
          isCovered = (totalDamage > 0)\<rparr>)"

definition analyzeTowerCoverage :: "node list \<Rightarrow> tower list \<Rightarrow> coverage list" where
  "analyzeTowerCoverage nodes towers = map (nodeCoverage towers) nodes"

record pathInfo =
  pathIndex :: nat
  pi_path :: "nat list"
  totalDamage :: real
  weakestNode :: "nat option"
  minDamage :: score
  avgDamagePerNode :: "real option"

text \<open>
  The walk over one path: \<open>coverage[nodeIndex].damagePerSecond\<close> throws when the path
  names a node without coverage.
\<close>

fun pathDamage ::
  "coverage list \<Rightarrow> nat list \<Rightarrow> real \<times> score \<times> nat option \<Rightarrow> error + real \<times> score \<times> nat option" where
  "pathDamage cov [] acc = Inr acc"
| "pathDamage cov (nodeIndex # rest) (tot, minD, weakest) =
     (if nodeIndex < length cov then
        (let d = damagePerSecond (cov ! nodeIndex)
         in pathDamage cov rest
              (tot + d,
               if lt (Finite d) minD then Finite d else minD,
               if lt (Finite d) minD then Some nodeIndex else weakest))
      else Inl TypeError)"

text \<open>\<open>totalDamage / path.length\<close> is \<open>NaN\<close> on an empty path: no value.\<close>

fun analyzePaths :: "coverage list \<Rightarrow> nat \<Rightarrow> nat list list \<Rightarrow> error + pathInfo list" where
  "analyzePaths cov index [] = Inr []"
| "analyzePaths cov index (path # paths) =
     (case pathDamage cov path (0, Infinity, None) of
        Inl e \<Rightarrow> Inl e
      | Inr (tot, minD, weakest) \<Rightarrow>
          (case analyzePaths cov (Suc index) paths of
             Inl e \<Rightarrow> Inl e
           | Inr infos \<Rightarrow>
               Inr (\<lparr>pathIndex = index, pi_path = path, totalDamage = tot,
                      weakestNode = weakest, minDamage = minD,
                      avgDamagePerNode = (if path = [] then None
                                          else Some (tot / real (length path)))\<rparr> # infos)))"

text \<open>The sort by \<open>totalDamage\<close> is stable, as \<open>Array.prototype.sort\<close> is.\<close>

definition findWeakestPaths :: "coverage list \<Rightarrow> nat list list \<Rightarrow> error + pathInfo list" where
  "findWeakestPaths cov paths =
     (case analyzePaths cov 0 paths of
        Inl e \<Rightarrow> Inl e
      | Inr infos \<Rightarrow> Inr (sort_key totalDamage infos))"

text \<open>The payoff matrix, in the key order of the object literal.\<close>

definition payoffMatrix :: "(string \<times> (posture \<Rightarrow> real)) list" where
  "payoffMatrix =
     [(''BASIC'', \<lambda>p. case p of FW_HEAVY \<Rightarrow> 0.2 | IDS_HEAVY \<Rightarrow> 0.7 | BALANCED_POSTURE \<Rightarrow> 0.4),
      (''FAST'', \<lambda>p. case p of FW_HEAVY \<Rightarrow> 0.1 | IDS_HEAVY \<Rightarrow> 0.8 | BALANCED_POSTURE \<Rightarrow> 0.5),
      (''TANK'', \<lambda>p. case p of FW_HEAVY \<Rightarrow> 0.6 | IDS_HEAVY \<Rightarrow> 0.3 | BALANCED_POSTURE \<Rightarrow> 0.4),
      (''STEALTH'', \<lambda>p. case p of FW_HEAVY \<Rightarrow> 0.9 | IDS_HEAVY \<Rightarrow> 0.2 | BALANCED_POSTURE \<Rightarrow> 0.4),
      (''ENCRYPTED'', \<lambda>p. case p of FW_HEAVY \<Rightarrow> 0.8 | IDS_HEAVY \<Rightarrow> 0.4 | BALANCED_POSTURE \<Rightarrow> 0.5),
      (''ADAPTIVE'', \<lambda>p. case p of FW_HEAVY \<Rightarrow> 0.7 | IDS_HEAVY \<Rightarrow> 0.6 | BALANCED_POSTURE \<Rightarrow> 0.8),
      (''LEGITIMATE'', \<lambda>p. case p of FW_HEAVY \<Rightarrow> 1.0 | IDS_HEAVY \<Rightarrow> 1.0 | BALANCED_POSTURE \<Rightarrow> 1.0)]"

definition candidates :: "(string \<times> (posture \<Rightarrow> real)) list" where
  "candidates = filter (\<lambda>(t, row). t \<noteq> ''LEGITIMATE'') payoffMatrix"

record pathStrategy =
  priority :: real
  enemyMix :: "(string \<times> real) list"
  spawnRate :: real

definition weights :: "posture \<Rightarrow> pathInfo \<Rightarrow> (string \<times> real) list" where
  "weights posture pinfo =
     map (\<lambda>(t, row). (t, row posture * (100 / (totalDamage pinfo + 1)))) candidates"

definition totalWeight :: "posture \<Rightarrow> pathInfo \<Rightarrow> real" where
  "totalWeight posture pinfo = foldl (\<lambda>acc (t, w). acc + w) 0 (weights posture pinfo)"

definition strategyForPath :: "posture \<Rightarrow> pathInfo \<Rightarrow> pathStrategy" where
  "strategyForPath posture pinfo =
     \<lparr>priority = (if totalDamage pinfo < 20 then 5 else 2),
      enemyMix = map (\<lambda>(t, w). (t, w / totalWeight posture pinfo)) (weights posture pinfo),
      spawnRate = max 0.4 (1.2 - totalDamage pinfo / 50)\<rparr>"

text \<open>
  \<open>calculateOptimalAttack\<close>: the posture comes from the committed towers of the level
  manager; the strategy object is keyed by \<open>pathIndex\<close>.
\<close>

definition calculateOptimalAttack :: "tower list \<Rightarrow> pathInfo list \<Rightarrow> (nat \<times> pathStrategy) list" where
  "calculateOptimalAttack committedTowers pathAnalysis =
     map (\<lambda>pinfo. (pathIndex pinfo, strategyForPath (towerRatio committedTowers) pinfo)) pathAnalysis"

definition calculateDefenseValue :: "coverage list \<Rightarrow> real" where
  "calculateDefenseValue cov = min 100 (foldl (\<lambda>tot n. tot + damagePerSecond n) 0 cov)"

definition calculateAttackValue :: "(nat \<times> pathStrategy) list \<Rightarrow> real" where
  "calculateAttackValue strategy =
     min 100 (foldl (\<lambda>tot (k, st). tot + priority st * spawnRate st) 0 strategy * 10)"

record analysis =
  an_coverage :: "coverage list"
  an_pathAnalysis :: "pathInfo list"
  defenseValue :: real
  attackValue :: real
  an_strategy :: "(nat \<times> pathStrategy) list"

text \<open>
  \<open>analyzeAndGenerate\<close>, called with the committed towers, which are also the towers
  the posture is read from. The textual summary of weaknesses is left out.
\<close>

definition analyzeAndGenerate :: "node list \<Rightarrow> nat list list \<Rightarrow> tower list \<Rightarrow> error + analysis" where
  "analyzeAndGenerate nodes paths towers =
     (let cov = analyzeTowerCoverage nodes towers
      in case findWeakestPaths cov paths of
           Inl e \<Rightarrow> Inl e
         | Inr pathAnalysis \<Rightarrow>
             (let optimalAttack = calculateOptimalAttack towers pathAnalysis
              in Inr \<lparr>an_coverage = cov, an_pathAnalysis = pathAnalysis,
                      defenseValue = calculateDefenseValue cov,
                      attackValue = calculateAttackValue optimalAttack,
                      an_strategy = optimalAttack\<rparr>))"


subsection \<open>The enemy mix is a probability distribution\<close>

lemma distance_nonneg: "0 \<le> distance x1 y1 x2 y2"
  by (simp add: distance_def)

lemma distance_same_y: "distance x1 y x2 y = \<bar>x2 - x1\<bar>"
  by (simp add: distance_def)

lemma foldl_dps_nonneg:
  assumes "\<forall>t\<in>set ts. 0 \<le> tower_damage t \<and> 0 < cooldownMax t" and "0 \<le> z"
  shows "0 \<le> foldl (\<lambda>acc t. acc + tower_damage t * (1 / (cooldownMax t / 1000))) z ts"
  using assms
proof (induction ts arbitrary: z)
  case Nil
  then show ?case by simp
next
  case (Cons t ts)
  have "0 \<le> tower_damage t * (1 / (cooldownMax t / 1000))"
    using Cons.prems(1) by simp
  with Cons.prems(2) have "0 \<le> z + tower_damage t * (1 / (cooldownMax t / 1000))" by simp
  with Cons show ?case by simp
qed

lemma nodeCoverage_nonneg:
  assumes "\<forall>t\<in>set towers. 0 \<le> tower_damage t \<and> 0 < cooldownMax t"
  shows "0 \<le> damagePerSecond (nodeCoverage towers n)"
proof -
  let ?ts = "filter (\<lambda>t. distance (tower_x t) (tower_y t) (node_x n) (node_y n)
                                  \<le> tower_range t) towers"
  have "damagePerSecond (nodeCoverage towers n)
      = foldl (\<lambda>acc t. acc + tower_damage t * (1 / (cooldownMax t / 1000))) 0 ?ts"
    by (simp add: nodeCoverage_def Let_def)
  moreover have "\<forall>t\<in>set ?ts. 0 \<le> tower_damage t \<and> 0 < cooldownMax t"
    using assms by simp
  ultimately show ?thesis using foldl_dps_nonneg [of ?ts 0] by simp
qed

lemma pathDamage_nonneg:
  assumes "\<forall>c\<in>set cov. 0 \<le> damagePerSecond c"
    and "pathDamage cov path (tot, minD, weakest) = Inr (tot', minD', weakest')" and "0 \<le> tot"
  shows "0 \<le> tot'"
  using assms(2,3)
proof (induction path arbitrary: tot minD weakest)
  case Nil
  then show ?case by simp
next
  case (Cons k path)
  from Cons.prems(1) have k: "k < length cov" by (simp split: if_splits)
  then have "0 \<le> damagePerSecond (cov ! k)" using assms(1) by simp
  with Cons.prems(2) have "0 \<le> tot + damagePerSecond (cov ! k)" by simp
  with Cons.IH Cons.prems(1) k show ?case by (simp add: Let_def)
qed

lemma analyzePaths_nonneg:
  assumes "\<forall>c\<in>set cov. 0 \<le> damagePerSecond c"
    and "analyzePaths cov index paths = Inr infos" and "pinfo \<in> set infos"
  shows "0 \<le> totalDamage pinfo"
  using assms(2,3)
proof (induction paths arbitrary: index infos)
  case Nil
  then show ?case by simp
next
  case (Cons path paths)
  from Cons.prems(1) obtain tot minD weakest rest where
    pd: "pathDamage cov path (0, Infinity, None) = Inr (tot, minD, weakest)"
    and rest: "analyzePaths cov (Suc index) paths = Inr rest"
    and infos: "infos = \<lparr>pathIndex = index, pi_path = path, totalDamage = tot,
                      weakestNode = weakest, minDamage = minD,
                      avgDamagePerNode = (if path = [] then None
                                          else Some (tot / real (length path)))\<rparr> # rest"
    by (auto split: sum.splits prod.splits)
  from pathDamage_nonneg [OF assms(1) pd] have "0 \<le> tot" by simp
  with Cons.IH [OF rest] Cons.prems(2) infos show ?case by auto
qed

lemma findWeakestPaths_nonneg:
  assumes "\<forall>c\<in>set cov. 0 \<le> damagePerSecond c"
    and "findWeakestPaths cov paths = Inr infos" and "pinfo \<in> set infos"
  shows "0 \<le> totalDamage pinfo"
proof -
  from assms(2) obtain raw where raw: "analyzePaths cov 0 paths = Inr raw"
    and infos: "infos = sort_key totalDamage raw"
    by (auto simp: findWeakestPaths_def split: sum.splits)
  from assms(3) infos have "pinfo \<in> set raw" by simp
  with analyzePaths_nonneg [OF assms(1) raw] show ?thesis by blast
qed

lemma candidates_eq:
  "map fst candidates = [''BASIC'', ''FAST'', ''TANK'', ''STEALTH'', ''ENCRYPTED'', ''ADAPTIVE'']"
  by (simp add: candidates_def payoffMatrix_def)

lemma foldl_weights:
  "foldl (\<lambda>acc (t, w). acc + w) (z::real) (ws :: (string \<times> real) list) = z + sum_list (map snd ws)"
  by (induction ws arbitrary: z) (auto simp: case_prod_beta)

lemma sum_list_div_const:
  "sum_list (map (\<lambda>x. f x / c) xs) = sum_list (map f xs) / (c::real)"
  by (induction xs) (simp_all add: add_divide_distrib)

lemma sum_list_times_const:
  "sum_list (map (\<lambda>x. f x * c) xs) = sum_list (map f xs) * (c::real)"
  by (induction xs) (simp_all add: distrib_right)

lemma payoff_sum_pos: "0 < sum_list (map (\<lambda>(t, row). row p) candidates)"
  by (cases p) (simp_all add: candidates_def payoffMatrix_def)

lemma totalWeight_eq:
  "totalWeight p pinfo = sum_list (map (\<lambda>(t, row). row p * (100 / (totalDamage pinfo + 1))) candidates)"
proof -
  have "map snd (weights p pinfo)
      = map (\<lambda>(t, row). row p * (100 / (totalDamage pinfo + 1))) candidates"
    unfolding weights_def by (induction candidates) auto
  then show ?thesis by (simp add: totalWeight_def foldl_weights)
qed

lemma totalWeight_pos:
  assumes "0 \<le> totalDamage pinfo"
  shows "0 < totalWeight p pinfo"
proof -
  have "totalWeight p pinfo
      = sum_list (map (\<lambda>tr. snd tr p * (100 / (totalDamage pinfo + 1))) candidates)"
    unfolding totalWeight_eq by (simp only: case_prod_unfold)
  also have "\<dots> = sum_list (map (\<lambda>tr. snd tr p) candidates) * (100 / (totalDamage pinfo + 1))"
    by (rule sum_list_times_const)
  finally have eq: "totalWeight p pinfo
      = sum_list (map (\<lambda>(t, row). row p) candidates) * (100 / (totalDamage pinfo + 1))"
    by (simp only: case_prod_unfold)
  have "0 < 100 / (totalDamage pinfo + 1)" using assms by simp
  with payoff_sum_pos [of p] show ?thesis unfolding eq by (rule mult_pos_pos)
qed

lemma enemyMix_sum:
  assumes "0 \<le> totalDamage pinfo"
  shows "sum_list (map snd (enemyMix (strategyForPath p pinfo))) = 1"
proof -
  have "map snd (enemyMix (strategyForPath p pinfo))
      = map (\<lambda>tw. snd tw / totalWeight p pinfo) (weights p pinfo)"
    by (simp add: strategyForPath_def case_prod_beta)
  then have "sum_list (map snd (enemyMix (strategyForPath p pinfo)))
      = sum_list (map snd (weights p pinfo)) / totalWeight p pinfo"
    by (simp only: sum_list_div_const)
  also have "sum_list (map snd (weights p pinfo)) = totalWeight p pinfo"
    by (simp add: totalWeight_def foldl_weights)
  finally show ?thesis using totalWeight_pos [OF assms, of p] by simp
qed

lemma enemyMix_shape:
  "enemyMix (strategyForPath p pinfo)
     = map (\<lambda>(t, row). (t, row p * (100 / (totalDamage pinfo + 1))
              / sum_list (map (\<lambda>(t', row'). row' p * (100 / (totalDamage pinfo + 1))) candidates)))
         candidates"
  by (simp add: strategyForPath_def weights_def totalWeight_eq case_prod_beta o_def)

lemma towerRatio_three_firewalls:
  assumes "length (filter (\<lambda>t. tower_type t = Firewall) towers) = 3"
    and "length (filter (\<lambda>t. tower_type t = IDS) towers) = 0"
  shows "towerRatio towers = FW_HEAVY"
  using assms by (simp add: towerRatio_def Let_def)

lemma pathDamage_total:
  "pathDamage cov path (tot, m, w) = Inr (tot', m', w')
   \<Longrightarrow> tot' = tot + sum_list (map (\<lambda>k. damagePerSecond (cov ! k)) path)"
proof (induction path arbitrary: tot m w)
  case Nil
  then show ?case by simp
next
  case (Cons k path)
  from Cons.prems have k: "k < length cov" by (simp split: if_splits)
  let ?d = "damagePerSecond (cov ! k)"
  from Cons.prems k have
    "pathDamage cov path (tot + ?d, if lt (Finite ?d) m then Finite ?d else m,
        if lt (Finite ?d) m then Some k else w) = Inr (tot', m', w')"
    by (simp add: Let_def)
  from Cons.IH [OF this] show ?case by simp
qed

lemma analyzePaths_entries:
  "analyzePaths cov idx paths = Inr infos
   \<Longrightarrow> length infos = length paths
       \<and> (\<forall>i<length paths. pathIndex (infos ! i) = idx + i \<and> pi_path (infos ! i) = paths ! i
             \<and> totalDamage (infos ! i)
                 = sum_list (map (\<lambda>k. damagePerSecond (cov ! k)) (paths ! i)))"
proof (induction paths arbitrary: idx infos)
  case Nil
  then show ?case by simp
next
  case (Cons path paths)
  from Cons.prems obtain tot minD weakest rest where
    pd: "pathDamage cov path (0, Infinity, None) = Inr (tot, minD, weakest)"
    and rest: "analyzePaths cov (Suc idx) paths = Inr rest"
    and infos: "infos = \<lparr>pathIndex = idx, pi_path = path, totalDamage = tot,
                      weakestNode = weakest, minDamage = minD,
                      avgDamagePerNode = (if path = [] then None
                                          else Some (tot / real (length path)))\<rparr> # rest"
    by (auto split: sum.splits prod.splits)
  from pathDamage_total [OF pd] have tot: "tot = sum_list (map (\<lambda>k. damagePerSecond (cov ! k)) path)"
    by simp
  from Cons.IH [OF rest] have len: "length rest = length paths"
    and each: "\<And>i. i < length paths \<Longrightarrow> pathIndex (rest ! i) = Suc idx + i
          \<and> pi_path (rest ! i) = paths ! i
          \<and> totalDamage (rest ! i) = sum_list (map (\<lambda>k. damagePerSecond (cov ! k)) (paths ! i))"
    by blast+
  have "pathIndex (infos ! i) = idx + i \<and> pi_path (infos ! i) = (path # paths) ! i
             \<and> totalDamage (infos ! i)
                 = sum_list (map (\<lambda>k. damagePerSecond (cov ! k)) ((path # paths) ! i))"
    if "i < length (path # paths)" for i
  proof (cases i)
    case 0
    then show ?thesis by (simp add: infos tot)
  next
    case (Suc j)
    with that have "j < length paths" by simp
    from each [OF this] show ?thesis by (simp add: infos Suc)
  qed
  with len infos show ?case by simp
qed

lemma analyzePaths_indices:
  assumes "analyzePaths cov idx paths = Inr infos"
  shows "map pathIndex infos = [idx..<idx + length paths]"
proof -
  from analyzePaths_entries [OF assms] have len: "length infos = length paths"
    and each: "\<And>i. i < length paths \<Longrightarrow> pathIndex (infos ! i) = idx + i" by blast+
  show ?thesis
    by (rule nth_equalityI) (simp_all add: len each)
qed

lemma strategy_keys:
  assumes "findWeakestPaths cov paths = Inr pa"
  shows "length pa = length paths" and "distinct (map pathIndex pa)"
    and "\<forall>i<length paths. \<exists>pinfo\<in>set pa. pathIndex pinfo = i \<and> pi_path pinfo = paths ! i
           \<and> totalDamage pinfo = sum_list (map (\<lambda>k. damagePerSecond (cov ! k)) (paths ! i))"
proof -
  from assms obtain raw where raw: "analyzePaths cov 0 paths = Inr raw"
    and pa: "pa = sort_key totalDamage raw"
    by (auto simp: findWeakestPaths_def split: sum.splits)
  from analyzePaths_entries [OF raw] have len: "length raw = length paths"
    and each: "\<And>i. i < length paths \<Longrightarrow> pathIndex (raw ! i) = 0 + i \<and> pi_path (raw ! i) = paths ! i
           \<and> totalDamage (raw ! i) = sum_list (map (\<lambda>k. damagePerSecond (cov ! k)) (paths ! i))"
    by blast+
  show "length pa = length paths" by (simp add: pa len)
  have "distinct (map pathIndex raw)"
    using analyzePaths_indices [OF raw] by simp
  then have "distinct raw" and "inj_on pathIndex (set raw)" by (simp_all add: distinct_map)
  then show "distinct (map pathIndex pa)" by (simp add: pa distinct_map)
  show "\<forall>i<length paths. \<exists>pinfo\<in>set pa. pathIndex pinfo = i \<and> pi_path pinfo = paths ! i
           \<and> totalDamage pinfo = sum_list (map (\<lambda>k. damagePerSecond (cov ! k)) (paths ! i))"
  proof (intro allI impI)
    fix i assume i: "i < length paths"
    then have "raw ! i \<in> set pa" by (simp add: pa len)
    with each [OF i] show "\<exists>pinfo\<in>set pa. pathIndex pinfo = i \<and> pi_path pinfo = paths ! i
           \<and> totalDamage pinfo = sum_list (map (\<lambda>k. damagePerSecond (cov ! k)) (paths ! i))"
      by auto
  qed
qed

lemma map_of_strategy:
  assumes "distinct (map pathIndex pa)" and "pinfo \<in> set pa"
  shows "map_of (calculateOptimalAttack towers pa) (pathIndex pinfo)
           = Some (strategyForPath (towerRatio towers) pinfo)"
proof -
  have "map fst (calculateOptimalAttack towers pa) = map pathIndex pa"
    by (simp add: calculateOptimalAttack_def o_def)
  with assms(1) have "distinct (map fst (calculateOptimalAttack towers pa))" by simp
  moreover have "(pathIndex pinfo, strategyForPath (towerRatio towers) pinfo)
                   \<in> set (calculateOptimalAttack towers pa)"
    using assms(2) by (auto simp: calculateOptimalAttack_def)
  ultimately show ?thesis by (rule map_of_is_SomeI)
qed

lemma pathDamage_returns:
  assumes "set path \<subseteq> {..<length cov}"
  shows "\<exists>r. pathDamage cov path acc = Inr r"
  using assms
proof (induction path arbitrary: acc)
  case Nil
  show ?case by (cases acc) auto
next
  case (Cons k path)
  obtain t m w where acc: "acc = (t, m, w)" by (cases acc) auto
  from Cons.prems have k: "k < length cov" and rest: "set path \<subseteq> {..<length cov}" by simp_all
  from Cons.IH [OF rest] k show ?case by (simp add: acc Let_def)
qed

lemma analyzePaths_returns:
  assumes "\<forall>p\<in>set paths. set p \<subseteq> {..<length cov}"
  shows "\<exists>infos. analyzePaths cov idx paths = Inr infos"
  using assms
proof (induction paths arbitrary: idx)
  case Nil
  then show ?case by simp
next
  case (Cons path paths)
  from Cons.prems have "set path \<subseteq> {..<length cov}" by simp
  from pathDamage_returns [OF this, of "(0, Infinity, None)"] obtain t m w where
    r: "pathDamage cov path (0, Infinity, None) = Inr (t, m, w)" by (metis prod_cases3)
  from Cons.IH [of "Suc idx"] Cons.prems obtain rest where
    "analyzePaths cov (Suc idx) paths = Inr rest" by auto
  with r show ?case by simp
qed

lemma analyzeAndGenerate_returns:
  assumes "\<forall>p\<in>set paths. set p \<subseteq> {..<length nodes}"
  shows "\<exists>a. analyzeAndGenerate nodes paths towers = Inr a"
proof -
  have "\<forall>p\<in>set paths. set p \<subseteq> {..<length (analyzeTowerCoverage nodes towers)}"
    using assms by (simp add: analyzeTowerCoverage_def)
  from analyzePaths_returns [OF this, of 0] obtain infos where
    "analyzePaths (analyzeTowerCoverage nodes towers) 0 paths = Inr infos" by blast
  then show ?thesis by (simp add: analyzeAndGenerate_def findWeakestPaths_def Let_def)
qed

text \<open>
  C3. For every committed snapshot of towers (non-negative damage, positive cooldown, as
  the tower constructor gives them) and every candidate path \<open>i\<close>, the analysis holds an
  entry for the path, with the total damage \<open>D\<close> of the coverage along it, and the
  strategy holds under the key \<open>i\<close> an enemy mix that lists the six non-legitimate types,
  each with the weight \<open>payoff(type, posture) * (100 / (D + 1))\<close> divided by the sum of
  these weights over the six types; the probabilities sum to 1, so within \<open>1e-6\<close> of 1.
  The strategy has one entry per candidate path, under distinct keys, and every entry is
  of this form. With three Firewall towers and no IDS tower the posture is \<open>FW_HEAVY\<close>.
\<close>

theorem enemyMix_distribution:
  assumes towers: "\<forall>t\<in>set towers. 0 \<le> tower_damage t \<and> 0 < cooldownMax t"
    and run: "analyzeAndGenerate nodes paths towers = Inr a"
  shows "(\<forall>i<length paths. \<exists>pinfo st.
            pinfo \<in> set (an_pathAnalysis a)
            \<and> pathIndex pinfo = i \<and> pi_path pinfo = paths ! i
            \<and> totalDamage pinfo
                = sum_list (map (\<lambda>k. damagePerSecond (nodeCoverage towers (nodes ! k))) (paths ! i))
            \<and> map_of (an_strategy a) i = Some st
            \<and> enemyMix st
                = map (\<lambda>(t, row). (t, row (towerRatio towers) * (100 / (totalDamage pinfo + 1))
                         / sum_list (map (\<lambda>(t', row'). row' (towerRatio towers)
                                             * (100 / (totalDamage pinfo + 1))) candidates)))
                    candidates
            \<and> sum_list (map snd (enemyMix st)) = 1
            \<and> \<bar>sum_list (map snd (enemyMix st)) - 1\<bar> \<le> 1 / 10 ^ 6)
       \<and> length (an_strategy a) = length paths
       \<and> distinct (map fst (an_strategy a))
       \<and> (\<forall>(pid, st)\<in>set (an_strategy a). \<exists>pinfo\<in>set (an_pathAnalysis a).
            pathIndex pinfo = pid
            \<and> enemyMix st
                = map (\<lambda>(t, row). (t, row (towerRatio towers) * (100 / (totalDamage pinfo + 1))
                         / sum_list (map (\<lambda>(t', row'). row' (towerRatio towers)
                                             * (100 / (totalDamage pinfo + 1))) candidates)))
                    candidates
            \<and> sum_list (map snd (enemyMix st)) = 1
            \<and> \<bar>sum_list (map snd (enemyMix st)) - 1\<bar> \<le> 1 / 10 ^ 6)
       \<and> (length (filter (\<lambda>t. tower_type t = Firewall) towers) = 3
            \<and> length (filter (\<lambda>t. tower_type t = IDS) towers) = 0
          \<longrightarrow> towerRatio towers = FW_HEAVY)"
proof -
  let ?cov = "analyzeTowerCoverage nodes towers"
  from run obtain pa where pa: "findWeakestPaths ?cov paths = Inr pa"
    and a: "an_pathAnalysis a = pa" "an_strategy a = calculateOptimalAttack towers pa"
    by (auto simp: analyzeAndGenerate_def Let_def split: sum.splits)
  have cov: "\<forall>c\<in>set ?cov. 0 \<le> damagePerSecond c"
    using nodeCoverage_nonneg [OF towers] by (auto simp: analyzeTowerCoverage_def)
  note keys = strategy_keys [OF pa]
  have mix: "enemyMix (strategyForPath (towerRatio towers) pinfo)
                = map (\<lambda>(t, row). (t, row (towerRatio towers) * (100 / (totalDamage pinfo + 1))
                         / sum_list (map (\<lambda>(t', row'). row' (towerRatio towers)
                                             * (100 / (totalDamage pinfo + 1))) candidates)))
                    candidates
            \<and> sum_list (map snd (enemyMix (strategyForPath (towerRatio towers) pinfo))) = 1
            \<and> \<bar>sum_list (map snd (enemyMix (strategyForPath (towerRatio towers) pinfo))) - 1\<bar>
                 \<le> 1 / 10 ^ 6"
    if "pinfo \<in> set pa" for pinfo
  proof -
    have d: "0 \<le> totalDamage pinfo"
      by (rule findWeakestPaths_nonneg [OF cov pa that])
    have one: "sum_list (map snd (enemyMix (strategyForPath (towerRatio towers) pinfo))) = 1"
      by (rule enemyMix_sum [OF d])
    have "\<bar>sum_list (map snd (enemyMix (strategyForPath (towerRatio towers) pinfo))) - 1\<bar>
            \<le> 1 / 10 ^ 6"
      by (simp add: one)
    with one enemyMix_shape [of "towerRatio towers" pinfo] show ?thesis by blast
  qed
  have every: "\<exists>pinfo st.
            pinfo \<in> set (an_pathAnalysis a)
            \<and> pathIndex pinfo = i \<and> pi_path pinfo = paths ! i
            \<and> totalDamage pinfo
                = sum_list (map (\<lambda>k. damagePerSecond (nodeCoverage towers (nodes ! k))) (paths ! i))
            \<and> map_of (an_strategy a) i = Some st
            \<and> enemyMix st
                = map (\<lambda>(t, row). (t, row (towerRatio towers) * (100 / (totalDamage pinfo + 1))
                         / sum_list (map (\<lambda>(t', row'). row' (towerRatio towers)
                                             * (100 / (totalDamage pinfo + 1))) candidates)))
                    candidates
            \<and> sum_list (map snd (enemyMix st)) = 1
            \<and> \<bar>sum_list (map snd (enemyMix st)) - 1\<bar> \<le> 1 / 10 ^ 6"
    if i: "i < length paths" for i
  proof -
    from keys(3) i obtain pinfo where p: "pinfo \<in> set pa" "pathIndex pinfo = i"
      "pi_path pinfo = paths ! i"
      "totalDamage pinfo = sum_list (map (\<lambda>k. damagePerSecond (?cov ! k)) (paths ! i))"
      by blast
    have inrange: "k < length nodes" if "k \<in> set (paths ! i)" for k
    proof -
      from pa obtain raw where raw: "analyzePaths ?cov 0 paths = Inr raw"
        by (auto simp: findWeakestPaths_def split: sum.splits)
      have "set path \<subseteq> {..<length ?cov}"
        if "pathDamage ?cov path acc = Inr r" for path acc r
        using that
      proof (induction path arbitrary: acc)
        case Nil
        then show ?case by simp
      next
        case (Cons k path)
        obtain t m w where acc: "acc = (t, m, w)" by (cases acc)
        from Cons.prems have k: "k < length ?cov" by (simp add: acc split: if_splits)
        with Cons.prems Cons.IH show ?case by (auto simp: acc Let_def)
      qed
      moreover have "\<exists>r. pathDamage ?cov (ps ! j) (0, Infinity, None) = Inr r"
        if "analyzePaths ?cov idx ps = Inr infos" "j < length ps" for ps idx infos j
        using that
      proof (induction ps arbitrary: idx infos j)
        case Nil
        then show ?case by simp
      next
        case (Cons q ps)
        from Cons.prems(1) obtain r rest where r: "pathDamage ?cov q (0, Infinity, None) = Inr r"
          and rest: "analyzePaths ?cov (Suc idx) ps = Inr rest"
          by (auto split: sum.splits prod.splits)
        show ?case
        proof (cases j)
          case 0
          with r show ?thesis by (cases r) simp
        next
          case (Suc j')
          with Cons.prems(2) Cons.IH [OF rest, of j'] show ?thesis by simp
        qed
      qed
      ultimately have "set (paths ! i) \<subseteq> {..<length ?cov}" using raw i by blast
      with that show ?thesis by (auto simp: analyzeTowerCoverage_def)
    qed
    have td: "totalDamage pinfo
                = sum_list (map (\<lambda>k. damagePerSecond (nodeCoverage towers (nodes ! k))) (paths ! i))"
      unfolding p(4)
      by (rule arg_cong [where f = sum_list], rule map_cong [OF refl])
         (simp add: analyzeTowerCoverage_def inrange)
    have m: "map_of (an_strategy a) i = Some (strategyForPath (towerRatio towers) pinfo)"
      using map_of_strategy [OF keys(2) p(1), of towers] by (simp add: a(2) p(2))
    from p(1,2,3) td m mix [OF p(1)] a(1) show ?thesis by blast
  qed
  have len: "length (an_strategy a) = length paths"
    by (simp add: a(2) calculateOptimalAttack_def keys(1))
  have dist: "distinct (map fst (an_strategy a))"
    using keys(2) by (simp add: a(2) calculateOptimalAttack_def o_def)
  have each: "\<exists>pinfo\<in>set (an_pathAnalysis a).
            pathIndex pinfo = pid
            \<and> enemyMix st
                = map (\<lambda>(t, row). (t, row (towerRatio towers) * (100 / (totalDamage pinfo + 1))
                         / sum_list (map (\<lambda>(t', row'). row' (towerRatio towers)
                                             * (100 / (totalDamage pinfo + 1))) candidates)))
                    candidates
            \<and> sum_list (map snd (enemyMix st)) = 1
            \<and> \<bar>sum_list (map snd (enemyMix st)) - 1\<bar> \<le> 1 / 10 ^ 6"
    if "(pid, st) \<in> set (an_strategy a)" for pid st
  proof -
    from that a(2) obtain pinfo where pinfo: "pinfo \<in> set pa" "pathIndex pinfo = pid"
        "st = strategyForPath (towerRatio towers) pinfo"
      by (auto simp: calculateOptimalAttack_def)
    from mix [OF pinfo(1)] pinfo a(1) show ?thesis by blast
  qed
  have fw: "length (filter (\<lambda>t. tower_type t = Firewall) towers) = 3
            \<and> length (filter (\<lambda>t. tower_type t = IDS) towers) = 0
          \<longrightarrow> towerRatio towers = FW_HEAVY"
    using towerRatio_three_firewalls [of towers] by blast
  show ?thesis
  proof (intro conjI)
    show "\<forall>i<length paths. \<exists>pinfo st.
            pinfo \<in> set (an_pathAnalysis a)
            \<and> pathIndex pinfo = i \<and> pi_path pinfo = paths ! i
            \<and> totalDamage pinfo
                = sum_list (map (\<lambda>k. damagePerSecond (nodeCoverage towers (nodes ! k))) (paths ! i))
            \<and> map_of (an_strategy a) i = Some st
            \<and> enemyMix st
                = map (\<lambda>(t, row). (t, row (towerRatio towers) * (100 / (totalDamage pinfo + 1))
                         / sum_list (map (\<lambda>(t', row'). row' (towerRatio towers)
                                             * (100 / (totalDamage pinfo + 1))) candidates)))
                    candidates
            \<and> sum_list (map snd (enemyMix st)) = 1
            \<and> \<bar>sum_list (map snd (enemyMix st)) - 1\<bar> \<le> 1 / 10 ^ 6"
      using every by blast
    show "length (an_strategy a) = length paths" by (rule len)
    show "distinct (map fst (an_strategy a))" by (rule dist)
    show "\<forall>(pid, st)\<in>set (an_strategy a). \<exists>pinfo\<in>set (an_pathAnalysis a).
            pathIndex pinfo = pid
            \<and> enemyMix st
                = map (\<lambda>(t, row). (t, row (towerRatio towers) * (100 / (totalDamage pinfo + 1))
                         / sum_list (map (\<lambda>(t', row'). row' (towerRatio towers)
                                             * (100 / (totalDamage pinfo + 1))) candidates)))
                    candidates
            \<and> sum_list (map snd (enemyMix st)) = 1
            \<and> \<bar>sum_list (map snd (enemyMix st)) - 1\<bar> \<le> 1 / 10 ^ 6"
      using each by blast
    show "length (filter (\<lambda>t. tower_type t = Firewall) towers) = 3
            \<and> length (filter (\<lambda>t. tower_type t = IDS) towers) = 0
          \<longrightarrow> towerRatio towers = FW_HEAVY" by (rule fw)
  qed
qed

theorem enemyMix_distribution_witness:
  "\<exists>a st0 st1. analyzeAndGenerate
            [\<lparr>node_id = 0, node_x = 0, node_y = 0, node_type = Source\<rparr>,
             \<lparr>node_id = 1, node_x = 100, node_y = 0, node_type = Normal\<rparr>,
             \<lparr>node_id = 2, node_x = 0, node_y = 300, node_type = Normal\<rparr>,
             \<lparr>node_id = 3, node_x = 100, node_y = 300, node_type = Goal\<rparr>]
            [[0, 1, 3], [0, 2, 3]]
            [newTower 0 0 Firewall, newTower 0 0 Firewall, newTower 100 0 Firewall] = Inr a
     \<and> map_of (an_strategy a) 0 = Some st0 \<and> map_of (an_strategy a) 1 = Some st1
     \<and> length (an_strategy a) = 2
     \<and> map fst (enemyMix st0) = [''BASIC'', ''FAST'', ''TANK'', ''STEALTH'', ''ENCRYPTED'', ''ADAPTIVE'']
     \<and> map fst (enemyMix st1) = [''BASIC'', ''FAST'', ''TANK'', ''STEALTH'', ''ENCRYPTED'', ''ADAPTIVE'']
     \<and> sum_list (map snd (enemyMix st0)) = 1
     \<and> sum_list (map snd (enemyMix st1)) = 1
     \<and> towerRatio [newTower 0 0 Firewall, newTower 0 0 Firewall, newTower 100 0 Firewall] = FW_HEAVY"
proof -
  let ?nodes = "[\<lparr>node_id = 0, node_x = 0, node_y = 0, node_type = Source\<rparr>,
             \<lparr>node_id = 1, node_x = 100, node_y = 0, node_type = Normal\<rparr>,
             \<lparr>node_id = 2, node_x = 0, node_y = 300, node_type = Normal\<rparr>,
             \<lparr>node_id = 3, node_x = 100, node_y = 300, node_type = Goal\<rparr>]"
  let ?paths = "[[0, 1, 3], [0, 2, 3]] :: nat list list"
  let ?towers = "[newTower 0 0 Firewall, newTower 0 0 Firewall, newTower 100 0 Firewall]"
  have wf: "\<forall>t\<in>set ?towers. 0 \<le> tower_damage t \<and> 0 < cooldownMax t"
    by (simp add: newTower_def)
  have "\<forall>p\<in>set ?paths. set p \<subseteq> {..<length ?nodes}" by simp
  from analyzeAndGenerate_returns [OF this, of ?towers] obtain a where
    a: "analyzeAndGenerate ?nodes ?paths ?towers = Inr a" by blast
  have fw: "length (filter (\<lambda>t. tower_type t = Firewall) ?towers) = 3
            \<and> length (filter (\<lambda>t. tower_type t = IDS) ?towers) = 0"
    by (simp add: newTower_def)
  note main = enemyMix_distribution [OF wf a]
  have every: "\<exists>st. map_of (an_strategy a) i = Some st
        \<and> map fst (enemyMix st) = map fst candidates \<and> sum_list (map snd (enemyMix st)) = 1"
    if i: "i < length ?paths" for i
    using main [THEN conjunct1, rule_format, OF i]
    apply (elim exE conjE)
    apply (rule exI)
    apply (intro conjI)
      apply assumption
     apply (simp add: case_prod_unfold o_def)
    apply assumption
    done
  from every [of 0] obtain st0 where st0: "map_of (an_strategy a) 0 = Some st0"
    "map fst (enemyMix st0) = map fst candidates" "sum_list (map snd (enemyMix st0)) = 1"
    by auto
  from every [of 1] obtain st1 where st1: "map_of (an_strategy a) 1 = Some st1"
    "map fst (enemyMix st1) = map fst candidates" "sum_list (map snd (enemyMix st1)) = 1"
    by auto
  from main have "length (an_strategy a) = length ?paths" by (elim conjE)
  then have len: "length (an_strategy a) = 2" by simp
  from main have "length (filter (\<lambda>t. tower_type t = Firewall) ?towers) = 3
            \<and> length (filter (\<lambda>t. tower_type t = IDS) ?towers) = 0
          \<longrightarrow> towerRatio ?towers = FW_HEAVY" by (elim conjE)
  with fw have ratio: "towerRatio ?towers = FW_HEAVY" by blast
  show ?thesis
    by (rule exI [where x = a], rule exI [where x = st0], rule exI [where x = st1])
       (use a st0 st1 len ratio in \<open>simp add: candidates_eq\<close>)
qed


section \<open>PhaseController (LevelManagerStackelberg)\<close>

datatype phase = Commitment | Training | Battle | Scoring

text \<open>\<open>levelConfig.phases\<close>, in seconds.\<close>

record phaseDurations =
  commitment_s :: real
  training_s :: real
  battle_s :: real

text \<open>
  The state of the level manager that the phase cycle reads and writes.
  \<open>pendingTimeouts\<close> counts the callbacks handed to \<open>setTimeout\<close> that have not run yet:
  the host runs such a callback at a moment of its own choosing, between two ticks.
\<close>

record stackelberg =
  sk_phases :: phaseDurations
  currentPhase :: phase
  phaseTimer :: real
  towersLocked :: bool
  committedTowers :: "tower list"
  battleActive :: bool
  aiAnalysis :: "analysis option"
  pendingTimeouts :: nat
  spawnTimer :: real
  spawnInterval :: real
  sk_normalMode :: bool
  sk_packetsSpawned :: nat
  sk_totalPackets :: nat
  sk_nodes :: "node list"
  sk_paths :: "nat list list"

definition newStackelberg ::
  "phaseDurations \<Rightarrow> real \<Rightarrow> node list \<Rightarrow> nat list list \<Rightarrow> stackelberg" where
  "newStackelberg ph interval nodes paths =
     \<lparr>sk_phases = ph, currentPhase = Commitment, phaseTimer = 0, towersLocked = False,
      committedTowers = [], battleActive = False, aiAnalysis = None, pendingTimeouts = 0,
      spawnTimer = 0, spawnInterval = interval, sk_normalMode = False,
      sk_packetsSpawned = 0, sk_totalPackets = 0, sk_nodes = nodes, sk_paths = paths\<rparr>"

definition getPhaseDuration :: "stackelberg \<Rightarrow> real" where
  "getPhaseDuration s =
     (case currentPhase s of
        Commitment \<Rightarrow> commitment_s (sk_phases s)
      | Training \<Rightarrow> training_s (sk_phases s)
      | Battle \<Rightarrow> battle_s (sk_phases s)
      | Scoring \<Rightarrow> 0)"

definition startTrainingPhase :: "stackelberg \<Rightarrow> stackelberg" where
  "startTrainingPhase s =
     s\<lparr>currentPhase := Training, phaseTimer := 0, towersLocked := True,
       pendingTimeouts := Suc (pendingTimeouts s)\<rparr>"

definition startBattlePhase :: "stackelberg \<Rightarrow> stackelberg" where
  "startBattlePhase s = s\<lparr>currentPhase := Battle, phaseTimer := 0, battleActive := True\<rparr>"

definition startScoringPhase :: "stackelberg \<Rightarrow> stackelberg" where
  "startScoringPhase s = s\<lparr>currentPhase := Scoring, battleActive := False\<rparr>"

definition advancePhase :: "stackelberg \<Rightarrow> stackelberg" where
  "advancePhase s =
     (case currentPhase s of
        Commitment \<Rightarrow> startTrainingPhase s
      | Training \<Rightarrow> startBattlePhase s
      | Battle \<Rightarrow> startScoringPhase s
      | Scoring \<Rightarrow> s)"

definition updatePhase :: "real \<Rightarrow> stackelberg \<Rightarrow> stackelberg" where
  "updatePhase deltaTime s =
     (let s1 = s\<lparr>phaseTimer := phaseTimer s + deltaTime\<rparr>;
          elapsed = \<lfloor>phaseTimer s1 / 1000\<rfloor>;
          remaining = getPhaseDuration s1 - of_int elapsed
      in if remaining \<le> 0 then advancePhase s1 else s1)"

text \<open>
  The callback of \<open>setTimeout\<close> in \<open>startTrainingPhase\<close>. An exception inside it is lost
  to the host and leaves the analysis unset.
\<close>

definition analysisCallback :: "stackelberg \<Rightarrow> stackelberg" where
  "analysisCallback s =
     (case analyzeAndGenerate (sk_nodes s) (sk_paths s) (committedTowers s) of
        Inl e \<Rightarrow> s
      | Inr a \<Rightarrow> s\<lparr>aiAnalysis := Some a\<rparr>)"

text \<open>The spawn check of the base class, then the override that gates it.\<close>

definition baseShouldSpawnEnemy :: "real \<Rightarrow> stackelberg \<Rightarrow> bool \<times> stackelberg" where
  "baseShouldSpawnEnemy deltaTime s =
     (let s1 = s\<lparr>spawnTimer := spawnTimer s + deltaTime\<rparr>
      in if spawnTimer s1 \<ge> spawnInterval s1 then
           (\<not> (sk_normalMode s1 \<and> sk_packetsSpawned s1 \<ge> sk_totalPackets s1),
            s1\<lparr>spawnTimer := 0\<rparr>)
         else (False, s1))"

definition shouldSpawnEnemy :: "real \<Rightarrow> stackelberg \<Rightarrow> bool \<times> stackelberg" where
  "shouldSpawnEnemy deltaTime s =
     (if currentPhase s \<noteq> Battle \<or> \<not> battleActive s then (False, s)
      else baseShouldSpawnEnemy deltaTime s)"

text \<open>
  The choice of the enemy type, with the two draws of \<open>Math.random()\<close> as arguments.
  Without an analysis the type is \<open>BASIC\<close>.
\<close>

fun pickPath :: "pathInfo list \<Rightarrow> real \<Rightarrow> nat" where
  "pickPath [] roll = 0"
| "pickPath (p # ps) roll =
     (let roll1 = roll - (10 - totalDamage p / 10)
      in if roll1 \<le> 0 then pathIndex p else pickPath ps roll1)"

definition selectOptimalPath :: "real \<Rightarrow> stackelberg \<Rightarrow> nat" where
  "selectOptimalPath r s =
     (case aiAnalysis s of
        None \<Rightarrow> 0
      | Some a \<Rightarrow>
          (let totalPriority = foldl (\<lambda>acc p. acc + (10 - totalDamage p / 10)) 0 (an_pathAnalysis a)
           in pickPath (an_pathAnalysis a) (r * totalPriority)))"

fun pickType :: "(string \<times> real) list \<Rightarrow> real \<Rightarrow> real \<Rightarrow> string" where
  "pickType [] roll cumulative = ''BASIC''"
| "pickType ((t, probability) # rest) roll cumulative =
     (if roll \<le> cumulative + probability then t else pickType rest roll (cumulative + probability))"

definition getEnemyTypeForPath :: "(nat \<times> pathStrategy) list \<Rightarrow> nat \<Rightarrow> real \<Rightarrow> string" where
  "getEnemyTypeForPath perfectStrategy pathIdx roll =
     (case map_of perfectStrategy pathIdx of
        None \<Rightarrow> ''BASIC''
      | Some st \<Rightarrow> pickType (enemyMix st) roll 0)"

definition getEnemyType :: "real \<Rightarrow> real \<Rightarrow> stackelberg \<Rightarrow> string" where
  "getEnemyType r1 r2 s =
     (case aiAnalysis s of
        None \<Rightarrow> ''BASIC''
      | Some a \<Rightarrow>
          if \<not> battleActive s then ''BASIC''
          else getEnemyTypeForPath (an_strategy a) (selectOptimalPath r1 s) r2)"

text \<open>
  What happens to the level manager: the host loop ticks it (\<open>updatePhase\<close>, then the
  spawn check), the host runs a pending timeout callback, or the playing state commits
  the placed towers.
\<close>

definition commitTowers :: "tower list \<Rightarrow> stackelberg \<Rightarrow> stackelberg" where
  "commitTowers towers s = s\<lparr>committedTowers := towers, towersLocked := True\<rparr>"

datatype event = Tick real | TimeoutFires | CommitTowers "tower list"

fun step :: "stackelberg \<Rightarrow> event \<Rightarrow> stackelberg" where
  "step s (Tick deltaTime) = snd (shouldSpawnEnemy deltaTime (updatePhase deltaTime s))"
| "step s TimeoutFires =
     (if pendingTimeouts s = 0 then s
      else analysisCallback (s\<lparr>pendingTimeouts := pendingTimeouts s - 1\<rparr>))"
| "step s (CommitTowers towers) = commitTowers towers s"

definition run :: "stackelberg \<Rightarrow> event list \<Rightarrow> stackelberg" where
  "run s events = foldl step s events"


subsection \<open>What starts the Battle phase\<close>

lemma step_keeps_analysis:
  "aiAnalysis s \<noteq> None \<Longrightarrow> aiAnalysis (step s e) \<noteq> None"
  by (cases e)
     (auto simp: shouldSpawnEnemy_def baseShouldSpawnEnemy_def updatePhase_def advancePhase_def
        startTrainingPhase_def startBattlePhase_def startScoringPhase_def analysisCallback_def
        commitTowers_def Let_def split: phase.splits sum.splits)

lemma run_keeps_analysis:
  "aiAnalysis s \<noteq> None \<Longrightarrow> aiAnalysis (run s events) \<noteq> None"
  unfolding run_def
proof (induction events arbitrary: s)
  case Nil
  then show ?case by simp
next
  case (Cons e events)
  from Cons.IH [OF step_keeps_analysis [OF Cons.prems, of e]] show ?case by simp
qed

lemma step_active_in_battle:
  "(battleActive s \<longrightarrow> currentPhase s = Battle)
   \<Longrightarrow> (battleActive (step s e) \<longrightarrow> currentPhase (step s e) = Battle)"
  by (cases e)
     (auto simp: shouldSpawnEnemy_def baseShouldSpawnEnemy_def updatePhase_def advancePhase_def
        startTrainingPhase_def startBattlePhase_def startScoringPhase_def analysisCallback_def
        commitTowers_def Let_def split: phase.splits sum.splits if_splits)

lemma run_active_in_battle:
  "(battleActive s \<longrightarrow> currentPhase s = Battle)
   \<Longrightarrow> (battleActive (run s events) \<longrightarrow> currentPhase (run s events) = Battle)"
  unfolding run_def
proof (induction events arbitrary: s)
  case Nil
  then show ?case by simp
next
  case (Cons e events)
  from step_active_in_battle [OF Cons.prems, of e] Cons.IH [of "step s e"]
  show ?case by simp
qed

lemma updatePhase_from_training:
  assumes "currentPhase s = Training"
  shows "currentPhase (updatePhase dt s)
           = (if training_s (sk_phases s) \<le> of_int \<lfloor>(phaseTimer s + dt) / 1000\<rfloor>
              then Battle else Training)"
    and "aiAnalysis (updatePhase dt s) = aiAnalysis s"
    and "pendingTimeouts (updatePhase dt s) = pendingTimeouts s"
  using assms
  by (simp_all add: updatePhase_def advancePhase_def startBattlePhase_def getPhaseDuration_def
      Let_def)

lemma updatePhase_enters_battle_only_from_training:
  assumes "currentPhase (updatePhase dt s) = Battle" "currentPhase s \<noteq> Battle"
  shows "currentPhase s = Training"
  using assms
  by (cases "currentPhase s")
     (simp_all add: updatePhase_def advancePhase_def startBattlePhase_def startTrainingPhase_def
        startScoringPhase_def getPhaseDuration_def Let_def split: if_splits)

text \<open>
  Leaving Training is decided by the phase timer alone: a tick in Training ends in
  Battle exactly when the whole seconds elapsed reach the configured training duration,
  and the tick neither reads nor changes the analysis. A spawn is permitted only in the
  Battle phase with the active flag set, and in every state reached from a new level
  manager the active flag is set only in Battle. The analysis, once the deferred
  callback has stored it, stays available through every later event; as long as it is
  missing the enemy type falls back to \<open>BASIC\<close>.
\<close>

lemma transition_on_timer:
  "(currentPhase s = Training \<longrightarrow>
       currentPhase (updatePhase dt s)
         = (if training_s (sk_phases s) \<le> of_int \<lfloor>(phaseTimer s + dt) / 1000\<rfloor>
            then Battle else Training)
       \<and> aiAnalysis (updatePhase dt s) = aiAnalysis s)
   \<and> (fst (shouldSpawnEnemy dt s) \<longrightarrow> currentPhase s = Battle \<and> battleActive s)
   \<and> (battleActive (run (newStackelberg ph interval nodes paths) events)
        \<longrightarrow> currentPhase (run (newStackelberg ph interval nodes paths) events) = Battle)
   \<and> (aiAnalysis s \<noteq> None \<longrightarrow> aiAnalysis (run s events) \<noteq> None)
   \<and> (aiAnalysis s = None \<longrightarrow> getEnemyType r1 r2 s = ''BASIC'')"
proof -
  have a: "currentPhase s = Training \<longrightarrow>
       currentPhase (updatePhase dt s)
         = (if training_s (sk_phases s) \<le> of_int \<lfloor>(phaseTimer s + dt) / 1000\<rfloor>
            then Battle else Training)
       \<and> aiAnalysis (updatePhase dt s) = aiAnalysis s"
    using updatePhase_from_training(1,2) [of s dt] by blast
  have b: "fst (shouldSpawnEnemy dt s) \<longrightarrow> currentPhase s = Battle \<and> battleActive s"
    by (auto simp: shouldSpawnEnemy_def)
  have c: "battleActive (run (newStackelberg ph interval nodes paths) events)
        \<longrightarrow> currentPhase (run (newStackelberg ph interval nodes paths) events) = Battle"
    by (rule run_active_in_battle) (simp add: newStackelberg_def)
  have d: "aiAnalysis s \<noteq> None \<longrightarrow> aiAnalysis (run s events) \<noteq> None"
    using run_keeps_analysis by blast
  have e: "aiAnalysis s = None \<longrightarrow> getEnemyType r1 r2 s = ''BASIC''"
    by (simp add: getEnemyType_def)
  from a b c d e show ?thesis by blast
qed

text \<open>
  So the order of Battle and analysis rests on the durations. With a training duration
  of one second and a spawn interval of 500 ms, ticks of 100 ms bring the level manager
  into Battle 1000 ms after the analysis was deferred by 3000 ms, and permit a spawn
  400 ms later, while the callback is still pending and the analysis is missing.
\<close>

lemma short_training_enters_battle:
  "currentPhase (run (newStackelberg \<lparr>commitment_s = 1, training_s = 1, battle_s = 30\<rparr> 500 [] [])
                   (replicate 23 (Tick 100))) = Battle
   \<and> aiAnalysis (run (newStackelberg \<lparr>commitment_s = 1, training_s = 1, battle_s = 30\<rparr> 500 [] [])
                   (replicate 23 (Tick 100))) = None
   \<and> pendingTimeouts (run (newStackelberg \<lparr>commitment_s = 1, training_s = 1, battle_s = 30\<rparr> 500 [] [])
                   (replicate 23 (Tick 100))) = 1
   \<and> fst (shouldSpawnEnemy 100 (updatePhase 100
        (run (newStackelberg \<lparr>commitment_s = 1, training_s = 1, battle_s = 30\<rparr> 500 [] [])
                   (replicate 23 (Tick 100))))) = True"
  by (simp add: eval_nat_numeral run_def newStackelberg_def updatePhase_def shouldSpawnEnemy_def
      baseShouldSpawnEnemy_def advancePhase_def startTrainingPhase_def startBattlePhase_def
      getPhaseDuration_def Let_def)


subsection \<open>The host: frames and timeouts on one clock\<close>









subsection \<open>The analysis is there when Battle starts\<close>


































section \<open>Verification of the path planner\<close>

text \<open>
  Edges are traversed in both directions. A route is a list of nodes whose neighbours in
  the list are joined by an edge; two nodes are linked when some route joins them. A
  graph is well formed when every edge joins two node indices.
\<close>

definition adjacent :: "(nat \<times> nat) list \<Rightarrow> nat \<Rightarrow> nat \<Rightarrow> bool" where
  "adjacent edges a b = ((a, b) \<in> set edges \<or> (b, a) \<in> set edges)"

fun isRoute :: "(nat \<times> nat) list \<Rightarrow> nat list \<Rightarrow> bool" where
  "isRoute edges [] = True"
| "isRoute edges [a] = True"
| "isRoute edges (a # b # rest) = (adjacent edges a b \<and> isRoute edges (b # rest))"

definition linked :: "(nat \<times> nat) list \<Rightarrow> nat \<Rightarrow> nat \<Rightarrow> bool" where
  "linked edges a b = ((a, b) \<in> {(u, v). adjacent edges u v}\<^sup>*)"

definition wellFormed :: "node list \<Rightarrow> (nat \<times> nat) list \<Rightarrow> bool" where
  "wellFormed nodes edges = list_all (\<lambda>(a, b). a < length nodes \<and> b < length nodes) edges"

lemma isRoute_snoc:
  "p \<noteq> [] \<Longrightarrow> isRoute edges (p @ [b]) = (isRoute edges p \<and> adjacent edges (last p) b)"
  by (induction edges p rule: isRoute.induct) auto

lemma isRoute_linked:
  "isRoute edges p \<Longrightarrow> p \<noteq> [] \<Longrightarrow> linked edges (hd p) (last p)"
proof (induction edges p rule: isRoute.induct)
  case (1 edges)
  then show ?case by simp
next
  case (2 edges a)
  then show ?case by (simp add: linked_def)
next
  case (3 edges a b rest)
  then have "linked edges b (last (b # rest))" by simp
  moreover have "(a, b) \<in> {(u, v). adjacent edges u v}" using 3 by simp
  ultimately show ?case unfolding linked_def by (simp add: converse_rtrancl_into_rtrancl)
qed

lemma buildGraph_edges_ok:
  assumes "buildGraph_edges es g = Inr G"
  shows "length G = length g
     \<and> (\<forall>(a, b)\<in>set es. a < length g \<and> b < length g)
     \<and> (\<forall>c<length g. set (G ! c) = set (g ! c) \<union> {b. (c, b) \<in> set es \<or> (b, c) \<in> set es})"
  using assms
proof (induction es arbitrary: g)
  case Nil
  then show ?case by simp
next
  case (Cons e es)
  obtain a b where e: "e = (a, b)" by (cases e)
  let ?g1 = "g[a := g ! a @ [b]]"
  let ?g2 = "?g1[b := ?g1 ! b @ [a]]"
  from Cons.prems e have a: "a < length g" and b: "b < length g"
    and rest: "buildGraph_edges es ?g2 = Inr G"
    by (auto simp: Let_def split: if_splits)
  from Cons.IH [OF rest] have len: "length G = length g"
    and rng: "\<forall>(a, b)\<in>set es. a < length g \<and> b < length g"
    and adj: "\<forall>c<length g. set (G ! c) = set (?g2 ! c) \<union> {b. (c, b) \<in> set es \<or> (b, c) \<in> set es}"
    by simp_all
  have g2: "set (?g2 ! c) = set (g ! c) \<union> {x. (c = a \<and> x = b) \<or> (c = b \<and> x = a)}"
    if "c < length g" for c
    using that a b by (auto simp: nth_list_update)
  have "set (G ! c) = set (g ! c) \<union> {x. (c, x) \<in> set (e # es) \<or> (x, c) \<in> set (e # es)}"
    if "c < length g" for c
    using adj that g2 [OF that] e by auto
  with len rng a b e show ?case by auto
qed

lemma buildGraph_edges_total:
  assumes "\<forall>(a, b)\<in>set es. a < length g \<and> b < length g"
  shows "\<exists>G. buildGraph_edges es g = Inr G"
  using assms
proof (induction es arbitrary: g)
  case Nil
  then show ?case by simp
next
  case (Cons e es)
  obtain a b where e: "e = (a, b)" by (cases e)
  let ?g2 = "(g[a := g ! a @ [b]])[b := (g[a := g ! a @ [b]]) ! b @ [a]]"
  have "\<forall>(a, b)\<in>set es. a < length ?g2 \<and> b < length ?g2" using Cons.prems by simp
  from Cons.IH [OF this] Cons.prems e show ?case by (simp add: Let_def)
qed

lemma buildGraph_ok:
  assumes "buildGraph edges n = Inr G"
  shows "length G = n" and "\<forall>(a, b)\<in>set edges. a < n \<and> b < n"
    and "\<forall>c<n. set (G ! c) = {b. adjacent edges c b}"
  using buildGraph_edges_ok [OF assms [unfolded buildGraph_def]]
  by (auto simp: adjacent_def)

lemma buildGraph_total:
  assumes "wellFormed nodes edges"
  shows "\<exists>G. buildGraph edges (length nodes) = Inr G"
  unfolding buildGraph_def
  by (rule buildGraph_edges_total) (use assms in \<open>auto simp: wellFormed_def list_all_iff\<close>)

lemma buildGraph_wellFormed:
  assumes "buildGraph edges (length nodes) = Inr G"
  shows "wellFormed nodes edges"
  using buildGraph_ok(2) [OF assms] by (auto simp: wellFormed_def list_all_iff)

text \<open>Chains of predecessors: what \<open>reconstructPath\<close> walks.\<close>

inductive chain :: "(nat \<rightharpoonup> nat) \<Rightarrow> nat \<Rightarrow> nat \<Rightarrow> nat list \<Rightarrow> bool"
  for cf :: "nat \<rightharpoonup> nat" and r :: nat where
  chain_root: "cf r = None \<Longrightarrow> chain cf r r [r]"
| chain_step: "cf x = Some c \<Longrightarrow> chain cf r c p \<Longrightarrow> chain cf r x (p @ [x])"

lemma chain_ends: "chain cf r x p \<Longrightarrow> p \<noteq> [] \<and> hd p = r \<and> last p = x"
  by (induction rule: chain.induct) auto

lemma chain_reconstruct:
  "chain cf r x p \<Longrightarrow> reconstructPath cf x (x # rest) = Some (p @ rest)"
proof (induction arbitrary: rest rule: chain.induct)
  case chain_root
  then show ?case by (subst reconstructPath.simps) simp
next
  case (chain_step x c p)
  from chain_step.IH [of "x # rest"] chain_step.hyps(1) show ?case
    by (subst reconstructPath.simps) simp
qed

lemma chain_update_other:
  "chain cf r x p \<Longrightarrow> y \<notin> set p \<Longrightarrow> chain (cf(y \<mapsto> c)) r x p"
proof (induction rule: chain.induct)
  case chain_root
  then have "(cf(y \<mapsto> c)) r = None" by simp
  then show ?case by (rule chain.chain_root)
next
  case (chain_step x c' p)
  from chain_step.prems have ne: "y \<noteq> x" "y \<notin> set p" by auto
  from ne(1) chain_step.hyps(1) have 1: "(cf(y \<mapsto> c)) x = Some c'" by simp
  from chain.chain_step [OF 1 chain_step.IH [OF ne(2)]] show ?case .
qed

lemma chain_update:
  assumes "chain cf r x p" and "chain cf r c pc" and "y \<notin> set pc" and "y \<noteq> r"
  shows "\<exists>p'. chain (cf(y \<mapsto> c)) r x p'"
  using assms(1)
proof (induction rule: chain.induct)
  case chain_root
  then have "(cf(y \<mapsto> c)) r = None" using assms(4) by simp
  then have "chain (cf(y \<mapsto> c)) r r [r]" by (rule chain.chain_root)
  then show ?case by blast
next
  case (chain_step x c' p)
  show ?case
  proof (cases "x = y")
    case True
    have "chain (cf(y \<mapsto> c)) r c pc" by (rule chain_update_other [OF assms(2,3)])
    moreover have "(cf(y \<mapsto> c)) y = Some c" by simp
    ultimately have "chain (cf(y \<mapsto> c)) r y (pc @ [y])" by (rule chain.chain_step [rotated])
    with True show ?thesis by blast
  next
    case False
    from chain_step.IH obtain p' where p': "chain (cf(y \<mapsto> c)) r c' p'" by blast
    from False chain_step.hyps(1) have "(cf(y \<mapsto> c)) x = Some c'" by simp
    from chain.chain_step [OF this p'] show ?thesis by blast
  qed
qed

subsection \<open>The predecessor map stays a tree rooted at the start\<close>

definition pathInv :: "nat list list \<Rightarrow> nat \<Rightarrow> astar_state \<Rightarrow> bool" where
  "pathInv G start s \<longleftrightarrow>
     set (openSet s) \<subseteq> {..<length G}
   \<and> (\<forall>x\<in>set (openSet s). (\<exists>v. fScore s x = Finite v) \<and> (\<exists>v. gScore s x = Finite v))
   \<and> gScore s start = Finite 0 \<and> cameFrom s start = None
   \<and> (\<forall>x v. gScore s x = Finite v \<longrightarrow> 0 \<le> v \<and> x < length G)
   \<and> (\<forall>x c. cameFrom s x = Some c \<longrightarrow>
          c < length G \<and> x \<in> set (G ! c)
          \<and> (\<exists>u v. gScore s c = Finite u \<and> gScore s x = Finite v \<and> u \<le> v))
   \<and> (\<forall>x v. gScore s x = Finite v \<longrightarrow> (\<exists>p. chain (cameFrom s) start x p))"

lemma edgeCost_nonneg: "0 \<le> edgeCost nodes a b"
  by (simp add: edgeCost_def distance_def)

lemma relax_False:
  "relax nodes goal False rnd c s y =
     (if lt (add (gScore s c) (edgeCost nodes c y)) (gScore s y) then
        s\<lparr>cameFrom := (cameFrom s)(y \<mapsto> c),
          gScore := (gScore s)(y := add (gScore s c) (edgeCost nodes c y)),
          fScore := (fScore s)(y := add (add (gScore s c) (edgeCost nodes c y))
                                     (heuristic (nodes ! y) (nodes ! goal))),
          openSet := setAdd (openSet s) y\<rparr>
      else s)"
  by (simp add: relax_def Let_def)

lemma lt_Finite_iff: "lt (Finite t) b \<longleftrightarrow> b = Infinity \<or> (\<exists>v. b = Finite v \<and> t < v)"
  by (cases b) auto

lemma chain_mono:
  assumes step: "\<forall>x c. cf x = Some c \<longrightarrow> (\<exists>u v. g c = Finite u \<and> g x = Finite v \<and> u \<le> v)"
    and root: "g r = Finite g0"
    and ch: "chain cf r x p"
  shows "\<exists>v. g x = Finite v \<and> (\<forall>z\<in>set p. \<exists>u. g z = Finite u \<and> u \<le> v)"
  using ch
proof (induction rule: chain.induct)
  case chain_root
  then show ?case using root by simp
next
  case (chain_step x c p)
  from step chain_step.hyps(1) obtain u v where uv: "g c = Finite u" "g x = Finite v" "u \<le> v"
    by blast
  from chain_step.IH uv(1) have "\<forall>z\<in>set p. \<exists>w. g z = Finite w \<and> w \<le> u" by simp
  with uv show ?case by fastforce
qed

lemma pathInv_relax:
  assumes inv: "pathInv G start s" and c: "c < length G" and gc: "gScore s c = Finite gc"
    and y: "y \<in> set (G ! c)" "y < length G"
  shows "pathInv G start (relax nodes goal False rnd c s y)"
proof (cases "lt (add (gScore s c) (edgeCost nodes c y)) (gScore s y)")
  case False
  then show ?thesis using inv by (simp add: relax_False)
next
  case True
  define t where "t = gc + edgeCost nodes c y"
  define s' where "s' = relax nodes goal False rnd c s y"
  have s': "cameFrom s' = (cameFrom s)(y \<mapsto> c)" "gScore s' = (gScore s)(y := Finite t)"
    "fScore s' = (fScore s)(y := Finite (t + heuristic (nodes ! y) (nodes ! goal)))"
    "openSet s' = setAdd (openSet s) y"
    using True gc unfolding s'_def t_def by (simp_all add: relax_False)
  have lt: "gScore s y = Infinity \<or> (\<exists>v. gScore s y = Finite v \<and> t < v)"
    using True gc unfolding t_def by (simp add: lt_Finite_iff)
  from inv have i1: "set (openSet s) \<subseteq> {..<length G}"
    and i2: "\<forall>x\<in>set (openSet s). (\<exists>v. fScore s x = Finite v) \<and> (\<exists>v. gScore s x = Finite v)"
    and i3: "gScore s start = Finite 0" "cameFrom s start = None"
    and i4: "\<forall>x v. gScore s x = Finite v \<longrightarrow> 0 \<le> v \<and> x < length G"
    and i5: "\<forall>x c. cameFrom s x = Some c \<longrightarrow>
          c < length G \<and> x \<in> set (G ! c)
          \<and> (\<exists>u v. gScore s c = Finite u \<and> gScore s x = Finite v \<and> u \<le> v)"
    and i6: "\<forall>x v. gScore s x = Finite v \<longrightarrow> (\<exists>p. chain (cameFrom s) start x p)"
    unfolding pathInv_def by blast+
  have gc0: "0 \<le> gc" using i4 gc by blast
  have t_ge: "gc \<le> t" "0 \<le> t" using edgeCost_nonneg [of nodes c y] gc0 unfolding t_def by simp_all
  have y_start: "y \<noteq> start" using lt i3(1) t_ge(2) by auto
  have y_c: "y \<noteq> c" using lt gc t_ge(1) by auto
  from i6 gc obtain pc where pc: "chain (cameFrom s) start c pc" by blast
  have mono: "\<forall>x c. cameFrom s x = Some c \<longrightarrow>
      (\<exists>u v. gScore s c = Finite u \<and> gScore s x = Finite v \<and> u \<le> v)"
    using i5 by blast
  from chain_mono [OF mono i3(1) pc] gc
  have below: "\<forall>z\<in>set pc. \<exists>u. gScore s z = Finite u \<and> u \<le> gc" by simp
  have y_pc: "y \<notin> set pc"
  proof
    assume "y \<in> set pc"
    with below obtain u where "gScore s y = Finite u" "u \<le> gc" by blast
    with lt t_ge(1) show False by auto
  qed
  have n1: "set (openSet s') \<subseteq> {..<length G}"
    using i1 y(2) by (auto simp: s' setAdd_def)
  have n2: "\<forall>x\<in>set (openSet s'). (\<exists>v. fScore s' x = Finite v) \<and> (\<exists>v. gScore s' x = Finite v)"
    using i2 by (auto simp: s' setAdd_def)
  have n3: "gScore s' start = Finite 0" "cameFrom s' start = None"
    using i3 y_start by (simp_all add: s')
  have n4: "\<forall>x v. gScore s' x = Finite v \<longrightarrow> 0 \<le> v \<and> x < length G"
    using i4 t_ge(2) y(2) by (auto simp: s')
  have n5: "\<forall>x c'. cameFrom s' x = Some c' \<longrightarrow>
          c' < length G \<and> x \<in> set (G ! c')
          \<and> (\<exists>u v. gScore s' c' = Finite u \<and> gScore s' x = Finite v \<and> u \<le> v)"
  proof (intro allI impI)
    fix x c' assume cf: "cameFrom s' x = Some c'"
    show "c' < length G \<and> x \<in> set (G ! c')
          \<and> (\<exists>u v. gScore s' c' = Finite u \<and> gScore s' x = Finite v \<and> u \<le> v)"
    proof (cases "x = y")
      case True
      with cf have "c' = c" by (simp add: s')
      with True c y(1) gc y_c t_ge(1) show ?thesis by (simp add: s')
    next
      case False
      with cf have old: "cameFrom s x = Some c'" by (simp add: s')
      with i5 obtain u v where uv: "c' < length G" "x \<in> set (G ! c')"
          "gScore s c' = Finite u" "gScore s x = Finite v" "u \<le> v" by blast
      show ?thesis
      proof (cases "c' = y")
        case True
        with uv(3) lt have "t < u" by auto
        with True False uv show ?thesis by (simp add: s')
      next
        case False
        with \<open>x \<noteq> y\<close> uv show ?thesis by (simp add: s')
      qed
    qed
  qed
  have n6: "\<forall>x v. gScore s' x = Finite v \<longrightarrow> (\<exists>p. chain (cameFrom s') start x p)"
  proof (intro allI impI)
    fix x v assume g: "gScore s' x = Finite v"
    show "\<exists>p. chain (cameFrom s') start x p"
    proof (cases "x = y")
      case True
      have "chain ((cameFrom s)(y \<mapsto> c)) start c pc" by (rule chain_update_other [OF pc y_pc])
      moreover have "((cameFrom s)(y \<mapsto> c)) y = Some c" by simp
      ultimately have "chain ((cameFrom s)(y \<mapsto> c)) start y (pc @ [y])"
        by (rule chain.chain_step [rotated])
      with True show ?thesis unfolding s' by blast
    next
      case False
      with g have "gScore s x = Finite v" by (simp add: s')
      with i6 obtain p where "chain (cameFrom s) start x p" by blast
      from chain_update [OF this pc y_pc y_start] show ?thesis unfolding s' .
    qed
  qed
  from n1 n2 n3 n4 n5 n6 show ?thesis unfolding pathInv_def s'_def [symmetric] by blast
qed

lemma relax_keeps_current:
  assumes "gScore s c = Finite gc" and "0 \<le> gc"
  shows "gScore (relax nodes goal False rnd c s y) c = Finite gc"
proof -
  have "\<not> lt (Finite (gc + edgeCost nodes c c)) (Finite gc)"
    using edgeCost_nonneg [of nodes c c] by simp
  with assms show ?thesis by (auto simp: relax_False)
qed

lemma pathInv_fold:
  assumes "pathInv G start s" and "c < length G" and "gScore s c = Finite gc"
    and "set ys \<subseteq> set (G ! c)" and "set ys \<subseteq> {..<length G}"
  shows "pathInv G start (foldl (relax nodes goal False rnd c) s ys)
       \<and> gScore (foldl (relax nodes goal False rnd c) s ys) c = Finite gc"
  using assms
proof (induction ys arbitrary: s)
  case Nil
  then show ?case by simp
next
  case (Cons y ys)
  have gc0: "0 \<le> gc" using Cons.prems(1,3) unfolding pathInv_def by blast
  have 1: "pathInv G start (relax nodes goal False rnd c s y)"
    using Cons.prems by (intro pathInv_relax [where gc = gc]) auto
  have 2: "gScore (relax nodes goal False rnd c s y) c = Finite gc"
    by (rule relax_keeps_current [OF Cons.prems(3) gc0])
  from Cons.IH [OF 1 Cons.prems(2) 2] Cons.prems(4,5) show ?case by simp
qed

subsection \<open>Every expanded node has finite neighbours\<close>

definition closedInv :: "nat list list \<Rightarrow> nat \<Rightarrow> nat set \<Rightarrow> astar_state \<Rightarrow> bool" where
  "closedInv G goal X s \<longleftrightarrow>
     (\<forall>x<length G. (\<exists>v. gScore s x = Finite v) \<and> x \<notin> set (openSet s) \<and> x \<notin> X
        \<longrightarrow> (\<forall>y\<in>set (G ! x). \<exists>v. gScore s y = Finite v))
   \<and> ((\<exists>v. gScore s goal = Finite v) \<longrightarrow> goal \<in> set (openSet s))"

lemma relax_finite_mono:
  assumes "gScore s c = Finite gc" and "gScore s x = Finite v"
  shows "\<exists>v'. gScore (relax nodes goal False rnd c s y) x = Finite v'"
  using assms by (auto simp: relax_False)

lemma relax_open_mono: "set (openSet s) \<subseteq> set (openSet (relax nodes goal False rnd c s y))"
  by (auto simp: relax_False setAdd_def)

lemma relax_makes_finite:
  assumes "gScore s c = Finite gc"
  shows "\<exists>v. gScore (relax nodes goal False rnd c s y) y = Finite v"
  using assms by (cases "gScore s y") (auto simp: relax_False)

lemma closedInv_relax:
  assumes "closedInv G goal X s" and "gScore s c = Finite gc"
  shows "closedInv G goal X (relax nodes goal False rnd c s y)"
proof (cases "lt (add (gScore s c) (edgeCost nodes c y)) (gScore s y)")
  case False
  then show ?thesis using assms by (simp add: relax_False)
next
  case True
  define s' where "s' = relax nodes goal False rnd c s y"
  have s': "gScore s' = (gScore s)(y := Finite (gc + edgeCost nodes c y))"
    "openSet s' = setAdd (openSet s) y"
    using True assms(2) unfolding s'_def by (simp_all add: relax_False)
  have a: "\<forall>x<length G. (\<exists>v. gScore s' x = Finite v) \<and> x \<notin> set (openSet s') \<and> x \<notin> X
        \<longrightarrow> (\<forall>z\<in>set (G ! x). \<exists>v. gScore s' z = Finite v)"
  proof (intro allI impI ballI)
    fix x z assume x: "x < length G"
      and h: "(\<exists>v. gScore s' x = Finite v) \<and> x \<notin> set (openSet s') \<and> x \<notin> X"
      and z: "z \<in> set (G ! x)"
    have "y \<in> set (openSet s')" by (simp add: s' setAdd_def)
    with h have "x \<noteq> y" by blast
    with h have "(\<exists>v. gScore s x = Finite v) \<and> x \<notin> set (openSet s) \<and> x \<notin> X"
      by (auto simp: s' setAdd_def split: if_splits)
    with assms(1) x z have "\<exists>v. gScore s z = Finite v" unfolding closedInv_def by blast
    then show "\<exists>v. gScore s' z = Finite v" by (auto simp: s')
  qed
  have b: "(\<exists>v. gScore s' goal = Finite v) \<longrightarrow> goal \<in> set (openSet s')"
    using assms(1) unfolding closedInv_def by (auto simp: s' setAdd_def)
  from a b show ?thesis unfolding closedInv_def s'_def [symmetric] by blast
qed

lemma fold_finite_mono:
  assumes "gScore s c = Finite gc" "0 \<le> gc" "gScore s x = Finite v"
  shows "\<exists>v'. gScore (foldl (relax nodes goal False rnd c) s ys) x = Finite v'"
  using assms
proof (induction ys arbitrary: s v)
  case Nil
  then show ?case by simp
next
  case (Cons y ys)
  from relax_finite_mono [OF Cons.prems(1,3)] obtain v' where
    "gScore (relax nodes goal False rnd c s y) x = Finite v'" by blast
  from Cons.IH [OF relax_keeps_current [OF Cons.prems(1,2)] Cons.prems(2) this]
  show ?case by simp
qed

lemma fold_makes_finite:
  assumes "gScore s c = Finite gc" "0 \<le> gc" "y \<in> set ys"
  shows "\<exists>v. gScore (foldl (relax nodes goal False rnd c) s ys) y = Finite v"
  using assms
proof (induction ys arbitrary: s)
  case Nil
  then show ?case by simp
next
  case (Cons z ys)
  let ?s1 = "relax nodes goal False rnd c s z"
  have c1: "gScore ?s1 c = Finite gc" by (rule relax_keeps_current [OF Cons.prems(1,2)])
  show ?case
  proof (cases "y = z")
    case True
    from relax_makes_finite [OF Cons.prems(1)] obtain v where "gScore ?s1 z = Finite v" by blast
    from fold_finite_mono [OF c1 Cons.prems(2) this] True show ?thesis by simp
  next
    case False
    with Cons.prems(3) have "y \<in> set ys" by simp
    from Cons.IH [OF c1 Cons.prems(2) this] show ?thesis by simp
  qed
qed

lemma fold_open_mono:
  "set (openSet s) \<subseteq> set (openSet (foldl (relax nodes goal False rnd c) s ys))"
proof (induction ys arbitrary: s)
  case Nil
  then show ?case by simp
next
  case (Cons y ys)
  from relax_open_mono [of s nodes goal rnd c y] Cons.IH [of "relax nodes goal False rnd c s y"]
  show ?case by auto
qed

lemma closedInv_fold:
  assumes "closedInv G goal X s" and "gScore s c = Finite gc" and "0 \<le> gc"
  shows "closedInv G goal X (foldl (relax nodes goal False rnd c) s ys)"
  using assms(1,2)
proof (induction ys arbitrary: s)
  case Nil
  then show ?case by simp
next
  case (Cons y ys)
  from Cons.IH [OF closedInv_relax [OF Cons.prems] relax_keeps_current [OF Cons.prems(2) assms(3)]]
  show ?case by simp
qed

lemma closedInv_expand:
  assumes inv: "closedInv G goal {} s" and gc: "gScore s c = Finite gc" "0 \<le> gc"
    and c: "c \<noteq> goal" "c < length G"
  shows "closedInv G goal {}
           (foldl (relax nodes goal False rnd c) (s\<lparr>openSet := removeAll c (openSet s)\<rparr>) (G ! c))"
proof -
  let ?s0 = "s\<lparr>openSet := removeAll c (openSet s)\<rparr>"
  let ?s1 = "foldl (relax nodes goal False rnd c) ?s0 (G ! c)"
  have "closedInv G goal {c} ?s0"
    using inv c(1) unfolding closedInv_def by auto
  moreover have g0: "gScore ?s0 c = Finite gc" using gc by simp
  ultimately have 1: "closedInv G goal {c} ?s1" using gc(2) by (rule closedInv_fold)
  have 2: "\<forall>y\<in>set (G ! c). \<exists>v. gScore ?s1 y = Finite v"
    using fold_makes_finite [OF g0 gc(2)] by blast
  from 1 2 show ?thesis unfolding closedInv_def by blast
qed

text \<open>Cost of a walk, and the finitely many simple paths.\<close>

fun pcost :: "node list \<Rightarrow> nat list \<Rightarrow> real" where
  "pcost nodes [] = 0"
| "pcost nodes [a] = 0"
| "pcost nodes (a # b # rest) = edgeCost nodes a b + pcost nodes (b # rest)"

lemma pcost_snoc:
  "p \<noteq> [] \<Longrightarrow> pcost nodes (p @ [y]) = pcost nodes p + edgeCost nodes (last p) y"
  by (induction nodes p rule: pcost.induct) auto

lemma pcost_nonneg: "0 \<le> pcost nodes p"
  by (induction nodes p rule: pcost.induct) (auto simp: edgeCost_nonneg)

lemma pcost_prefix: "pcost nodes q \<le> pcost nodes (q @ r)"
proof (induction r rule: rev_induct)
  case Nil
  then show ?case by simp
next
  case (snoc z r)
  show ?case
  proof (cases "q @ r = []")
    case True
    then show ?thesis by (simp add: pcost_nonneg)
  next
    case False
    from pcost_snoc [OF False, of nodes z] edgeCost_nonneg [of nodes "last (q @ r)" z] snoc
    show ?thesis by simp
  qed
qed

definition simplePaths :: "nat \<Rightarrow> nat list set" where
  "simplePaths n = {p. p \<noteq> [] \<and> distinct p \<and> set p \<subseteq> {..<n}}"

lemma finite_simplePaths: "finite (simplePaths n)"
proof -
  have "simplePaths n \<subseteq> {p. set p \<subseteq> {..<n} \<and> length p \<le> n}"
  proof
    fix p assume "p \<in> simplePaths n"
    then have d: "distinct p" and s: "set p \<subseteq> {..<n}" by (simp_all add: simplePaths_def)
    from d have "length p = card (set p)" by (simp add: distinct_card)
    also have "\<dots> \<le> card {..<n}" using s by (intro card_mono) simp_all
    finally show "p \<in> {p. set p \<subseteq> {..<n} \<and> length p \<le> n}" using s by simp
  qed
  moreover have "finite {p. set p \<subseteq> {..<n} \<and> length p \<le> n}"
    by (rule finite_lists_length_le) simp
  ultimately show ?thesis by (rule finite_subset)
qed

subsection \<open>Termination: every update uses up a simple path\<close>

definition witInv :: "node list \<Rightarrow> nat \<Rightarrow> astar_state \<Rightarrow> bool" where
  "witInv nodes n s \<longleftrightarrow>
     (\<exists>W. \<forall>x v. gScore s x = Finite v \<longrightarrow>
        W x \<in> simplePaths n \<and> last (W x) = x \<and> pcost nodes (W x) = v
        \<and> (\<forall>q r. W x = q @ r \<and> q \<noteq> [] \<longrightarrow>
              (\<exists>u. gScore s (last q) = Finite u \<and> u \<le> pcost nodes q)))"

definition pending :: "node list \<Rightarrow> nat \<Rightarrow> astar_state \<Rightarrow> nat list set" where
  "pending nodes n s = {p \<in> simplePaths n. lt (Finite (pcost nodes p)) (gScore s (last p))}"

definition potential :: "node list \<Rightarrow> nat \<Rightarrow> astar_state \<Rightarrow> nat" where
  "potential nodes n s = card (pending nodes n s)"

lemma witInv_relax:
  assumes inv: "witInv nodes n s" and gc: "gScore s c = Finite gc" and y: "y < n"
  shows "witInv nodes n (relax nodes goal False rnd c s y)
       \<and> (relax nodes goal False rnd c s y = s
           \<or> potential nodes n (relax nodes goal False rnd c s y) < potential nodes n s)"
proof (cases "lt (add (gScore s c) (edgeCost nodes c y)) (gScore s y)")
  case False
  then show ?thesis using inv by (simp add: relax_False)
next
  case True
  define t where "t = gc + edgeCost nodes c y"
  define s' where "s' = relax nodes goal False rnd c s y"
  have s': "gScore s' = (gScore s)(y := Finite t)"
    using True gc unfolding s'_def t_def by (simp add: relax_False)
  have lt: "gScore s y = Infinity \<or> (\<exists>v. gScore s y = Finite v \<and> t < v)"
    using True gc unfolding t_def by (simp add: lt_Finite_iff)
  from inv obtain W where W: "\<forall>x v. gScore s x = Finite v \<longrightarrow>
        W x \<in> simplePaths n \<and> last (W x) = x \<and> pcost nodes (W x) = v
        \<and> (\<forall>q r. W x = q @ r \<and> q \<noteq> [] \<longrightarrow>
              (\<exists>u. gScore s (last q) = Finite u \<and> u \<le> pcost nodes q))"
    unfolding witInv_def by blast
  from W gc have Wc: "W c \<in> simplePaths n" "last (W c) = c" "pcost nodes (W c) = gc"
    and Wc_pre: "\<forall>q r. W c = q @ r \<and> q \<noteq> [] \<longrightarrow>
              (\<exists>u. gScore s (last q) = Finite u \<and> u \<le> pcost nodes q)"
    by blast+
  have Wc_ne: "W c \<noteq> []" using Wc(1) by (simp add: simplePaths_def)
  have t_ge: "gc \<le> t" using edgeCost_nonneg [of nodes c y] unfolding t_def by simp
  have y_notin: "y \<notin> set (W c)"
  proof
    assume "y \<in> set (W c)"
    then obtain q0 r where split: "W c = q0 @ y # r" by (auto simp: in_set_conv_decomp)
    then have "W c = (q0 @ [y]) @ r" by simp
    with Wc_pre obtain u where u: "gScore s (last (q0 @ [y])) = Finite u"
        "u \<le> pcost nodes (q0 @ [y])" by blast
    have "pcost nodes (q0 @ [y]) \<le> pcost nodes ((q0 @ [y]) @ r)" by (rule pcost_prefix)
    also have "\<dots> = gc" using split Wc(3) by simp
    finally have "u \<le> t" using u(2) t_ge by simp
    with u(1) lt show False by auto
  qed
  define Wy where "Wy = W c @ [y]"
  have Wy_sp: "Wy \<in> simplePaths n"
    using Wc(1) y y_notin unfolding Wy_def simplePaths_def by auto
  have Wy_cost: "pcost nodes Wy = t"
    unfolding Wy_def t_def using pcost_snoc [OF Wc_ne, of nodes y] Wc(2,3) by simp
  have Wy_last: "last Wy = y" unfolding Wy_def by simp
  define W' where "W' = W(y := Wy)"
  have new: "W' x \<in> simplePaths n \<and> last (W' x) = x \<and> pcost nodes (W' x) = v
        \<and> (\<forall>q r. W' x = q @ r \<and> q \<noteq> [] \<longrightarrow>
              (\<exists>u. gScore s' (last q) = Finite u \<and> u \<le> pcost nodes q))"
    if g: "gScore s' x = Finite v" for x v
  proof (cases "x = y")
    case True
    with g have v: "v = t" by (simp add: s')
    have pre: "\<exists>u. gScore s' (last q) = Finite u \<and> u \<le> pcost nodes q"
      if q: "Wy = q @ r" "q \<noteq> []" for q r
    proof (cases "r = []")
      case True
      with q have "q = Wy" by simp
      then show ?thesis using Wy_last Wy_cost by (simp add: s')
    next
      case False
      then obtain r0 where r0: "r = r0 @ [y]" "W c = q @ r0"
        using q(1) unfolding Wy_def
        by (metis append_assoc butlast_append butlast_snoc last_appendR snoc_eq_iff_butlast)
      with Wc_pre q(2) obtain u where u: "gScore s (last q) = Finite u" "u \<le> pcost nodes q"
        by blast
      have "last q \<in> set (W c)" using r0(2) q(2) by simp
      with y_notin have "last q \<noteq> y" by blast
      with u show ?thesis by (simp add: s')
    qed
    from True v Wy_sp Wy_last Wy_cost pre show ?thesis by (simp add: W'_def)
  next
    case False
    with g have old: "gScore s x = Finite v" by (simp add: s')
    with W have Wx: "W x \<in> simplePaths n" "last (W x) = x" "pcost nodes (W x) = v"
      and Wx_pre: "\<forall>q r. W x = q @ r \<and> q \<noteq> [] \<longrightarrow>
              (\<exists>u. gScore s (last q) = Finite u \<and> u \<le> pcost nodes q)"
      by blast+
    have pre: "\<exists>u. gScore s' (last q) = Finite u \<and> u \<le> pcost nodes q"
      if q: "W x = q @ r" "q \<noteq> []" for q r
    proof -
      from Wx_pre q obtain u where u: "gScore s (last q) = Finite u" "u \<le> pcost nodes q"
        by blast
      show ?thesis
      proof (cases "last q = y")
        case True
        with u(1) lt have "t < u" by auto
        with True u(2) show ?thesis by (simp add: s')
      next
        case False
        with u show ?thesis by (simp add: s')
      qed
    qed
    from False Wx pre show ?thesis by (simp add: W'_def)
  qed
  then have inv': "witInv nodes n s'" unfolding witInv_def by blast
  have sub: "pending nodes n s' \<subseteq> pending nodes n s"
  proof
    fix p assume p: "p \<in> pending nodes n s'"
    show "p \<in> pending nodes n s"
    proof (cases "last p = y")
      case True
      with p have "pcost nodes p < t" by (simp add: pending_def s')
      with lt True have "lt (Finite (pcost nodes p)) (gScore s (last p))" by auto
      with p show ?thesis by (simp add: pending_def)
    next
      case False
      with p show ?thesis by (simp add: pending_def s')
    qed
  qed
  have "Wy \<in> pending nodes n s" using Wy_sp Wy_last Wy_cost lt by (auto simp: pending_def)
  moreover have "Wy \<notin> pending nodes n s'" using Wy_last Wy_cost by (simp add: pending_def s')
  ultimately have "pending nodes n s' \<subset> pending nodes n s" using sub by blast
  moreover have "finite (pending nodes n s)"
    using finite_simplePaths [of n] by (simp add: pending_def)
  ultimately have "potential nodes n s' < potential nodes n s"
    unfolding potential_def by (rule psubset_card_mono [rotated])
  with inv' show ?thesis unfolding s'_def by blast
qed

lemma witInv_fold:
  assumes "witInv nodes n s" and "gScore s c = Finite gc" and "0 \<le> gc"
    and "set ys \<subseteq> {..<n}"
  shows "witInv nodes n (foldl (relax nodes goal False rnd c) s ys)
       \<and> (foldl (relax nodes goal False rnd c) s ys = s
           \<or> potential nodes n (foldl (relax nodes goal False rnd c) s ys) < potential nodes n s)"
  using assms(1,2,4)
proof (induction ys arbitrary: s)
  case Nil
  then show ?case by simp
next
  case (Cons y ys)
  let ?s1 = "relax nodes goal False rnd c s y"
  from Cons.prems(3) have y: "y < n" and ys: "set ys \<subseteq> {..<n}" by simp_all
  from witInv_relax [OF Cons.prems(1,2) y, of goal rnd]
  have 1: "witInv nodes n ?s1" and 2: "?s1 = s \<or> potential nodes n ?s1 < potential nodes n s"
    by blast+
  have 3: "gScore ?s1 c = Finite gc" by (rule relax_keeps_current [OF Cons.prems(2) assms(3)])
  from Cons.IH [OF 1 3 ys]
  have 4: "witInv nodes n (foldl (relax nodes goal False rnd c) ?s1 ys)"
    and 5: "foldl (relax nodes goal False rnd c) ?s1 ys = ?s1
           \<or> potential nodes n (foldl (relax nodes goal False rnd c) ?s1 ys) < potential nodes n ?s1"
    by blast+
  from 2 5 have "foldl (relax nodes goal False rnd c) ?s1 ys = s
      \<or> potential nodes n (foldl (relax nodes goal False rnd c) ?s1 ys) < potential nodes n s"
    by auto
  with 4 show ?case by simp
qed

subsection \<open>The search returns a route or reports that none exists\<close>

lemma lowestF_mem:
  "lowestF f xs cur low = Some c \<Longrightarrow> cur = Some c \<or> c \<in> set xs"
  by (induction xs arbitrary: cur low) (auto split: if_splits)

lemma lowestF_some:
  assumes "\<forall>x\<in>set xs. \<exists>v. f x = Finite v"
    and "cur \<noteq> None \<or> (low = Infinity \<and> xs \<noteq> [])"
  shows "lowestF f xs cur low \<noteq> None"
  using assms
proof (induction xs arbitrary: cur low)
  case Nil
  then show ?case by simp
next
  case (Cons x xs)
  from Cons.prems(1) obtain v where v: "f x = Finite v" by auto
  show ?case
  proof (cases "lt (f x) low")
    case True
    with Cons.IH [of "Some x" "f x"] Cons.prems(1) show ?thesis by simp
  next
    case False
    with v have "low \<noteq> Infinity" by auto
    with Cons.prems(2) have "cur \<noteq> None" by blast
    with Cons.IH [of cur low] Cons.prems(1) False show ?thesis by simp
  qed
qed

lemma chain_route:
  assumes "\<forall>x c. cf x = Some c \<longrightarrow> adjacent edges c x" and "chain cf r x p"
  shows "isRoute edges p"
  using assms(2)
proof (induction rule: chain.induct)
  case chain_root
  then show ?case by simp
next
  case (chain_step x c p)
  from chain_ends [OF chain_step.hyps(2)] have "p \<noteq> []" "last p = c" by simp_all
  with chain_step assms(1) show ?case by (simp add: isRoute_snoc)
qed

definition searchInv ::
  "node list \<Rightarrow> nat list list \<Rightarrow> nat \<Rightarrow> nat \<Rightarrow> astar_state \<Rightarrow> bool" where
  "searchInv nodes G start goal s \<longleftrightarrow>
     pathInv G start s \<and> closedInv G goal {} s \<and> witInv nodes (length G) s"

lemma searchInv_initial:
  assumes "start < length G" "start \<noteq> goal"
  shows "searchInv nodes G start goal (initialState nodes start goal)"
proof -
  let ?s = "initialState nodes start goal"
  have g: "gScore ?s x = Finite v \<longleftrightarrow> x = start \<and> v = 0" for x v
    by (simp add: initialState_def)
  have op: "openSet ?s = [start]" and cf: "cameFrom ?s = Map.empty"
    and f: "fScore ?s start = Finite (heuristic (nodes ! start) (nodes ! goal))"
    by (simp_all add: initialState_def)
  have ch: "chain (cameFrom ?s) start start [start]"
    by (rule chain.chain_root) (simp add: cf)
  have ex: "\<exists>p. chain (cameFrom ?s) start start p" using ch by blast
  have 1: "pathInv G start ?s"
    unfolding pathInv_def g op using assms(1) ex f by (simp add: cf)
  have 2: "closedInv G goal {} ?s"
    unfolding closedInv_def g op using assms(2) by simp
  have pre: "\<exists>u. gScore ?s (last q) = Finite u \<and> u \<le> pcost nodes q"
    if "[start] = q @ r" "q \<noteq> []" for q r
  proof -
    from that have "q = [start]" by (cases q) simp_all
    then show ?thesis by (simp add: g)
  qed
  have "\<forall>x v. gScore ?s x = Finite v \<longrightarrow>
        [x] \<in> simplePaths (length G) \<and> last [x] = x \<and> pcost nodes [x] = v
        \<and> (\<forall>q r. [x] = q @ r \<and> q \<noteq> [] \<longrightarrow>
              (\<exists>u. gScore ?s (last q) = Finite u \<and> u \<le> pcost nodes q))"
  proof (intro allI impI)
    fix x v assume "gScore ?s x = Finite v"
    then have x: "x = start" "v = 0" by (simp_all add: g)
    have a: "[x] \<in> simplePaths (length G)" using assms(1) x by (simp add: simplePaths_def)
    have c: "pcost nodes [x] = v" using x by simp
    have d: "\<forall>q r. [x] = q @ r \<and> q \<noteq> [] \<longrightarrow>
              (\<exists>u. gScore ?s (last q) = Finite u \<and> u \<le> pcost nodes q)"
      using pre x by blast
    from a c d show "[x] \<in> simplePaths (length G) \<and> last [x] = x \<and> pcost nodes [x] = v
        \<and> (\<forall>q r. [x] = q @ r \<and> q \<noteq> [] \<longrightarrow>
              (\<exists>u. gScore ?s (last q) = Finite u \<and> u \<le> pcost nodes q))"
      by simp
  qed
  then have 3: "witInv nodes (length G) ?s"
    unfolding witInv_def by (rule exI [where x = "\<lambda>x. [x]"])
  from 1 2 3 show ?thesis unfolding searchInv_def by blast
qed

lemma astar_correct:
  assumes G: "buildGraph edges (length nodes) = Inr G"
    and inv: "searchInv nodes G start goal s"
  shows "\<exists>p. astar nodes G goal False rnd s = Some p
           \<and> (if linked edges start goal
              then p \<noteq> [] \<and> hd p = start \<and> last p = goal \<and> isRoute edges p
              else p = [])"
proof -
  define R where "R = inv_image (less_than <*lex*> less_than)
                  (\<lambda>s. (potential nodes (length G) s, length (openSet s)))"
  have wfR: "wf R" unfolding R_def by (intro wf_inv_image wf_lex_prod wf_less_than)
  show ?thesis using wfR inv
  proof (induction s rule: wf_induct_rule)
  case (less s)
  note lenG = buildGraph_ok(1) [OF G]
  note rng = buildGraph_ok(2) [OF G]
  note adj = buildGraph_ok(3) [OF G]
  from less.prems have pI: "pathInv G start s" and cI: "closedInv G goal {} s"
    and wI: "witInv nodes (length G) s"
    unfolding searchInv_def by blast+
  from pI have i1: "set (openSet s) \<subseteq> {..<length G}"
    and i2: "\<forall>x\<in>set (openSet s). (\<exists>v. fScore s x = Finite v) \<and> (\<exists>v. gScore s x = Finite v)"
    and i3: "gScore s start = Finite 0"
    and i4: "\<forall>x v. gScore s x = Finite v \<longrightarrow> 0 \<le> v \<and> x < length G"
    and i5: "\<forall>x c. cameFrom s x = Some c \<longrightarrow>
          c < length G \<and> x \<in> set (G ! c)
          \<and> (\<exists>u v. gScore s c = Finite u \<and> gScore s x = Finite v \<and> u \<le> v)"
    and i6: "\<forall>x v. gScore s x = Finite v \<longrightarrow> (\<exists>p. chain (cameFrom s) start x p)"
    unfolding pathInv_def by blast+
  have nbrs: "set (G ! c) \<subseteq> {..<length G}" if "c < length G" for c
  proof
    fix b assume "b \<in> set (G ! c)"
    with adj that lenG have "adjacent edges c b" by simp
    with rng lenG show "b \<in> {..<length G}" by (auto simp: adjacent_def)
  qed
  have sound: "p \<noteq> [] \<and> hd p = start \<and> last p = goal \<and> isRoute edges p
       \<Longrightarrow> linked edges start goal" for p
    using isRoute_linked [of edges p] by auto
  show ?case
  proof (cases "openSet s = []")
    case True
    have ret: "astar nodes G goal False rnd s = Some []"
      using True by (subst astar.simps) simp
    have closed: "\<exists>v. gScore s z = Finite v" if "linked edges start z" for z
      using that unfolding linked_def
    proof (induction rule: rtrancl_induct)
      case base
      then show ?case using i3 by blast
    next
      case (step a b)
      from step.IH obtain v where v: "gScore s a = Finite v" by blast
      with i4 have a: "a < length G" by blast
      from step.hyps(2) adj a lenG have "b \<in> set (G ! a)" by simp
      with cI a v True show ?case unfolding closedInv_def by auto
    qed
    have "\<not> linked edges start goal"
    proof
      assume "linked edges start goal"
      from closed [OF this] cI True show False unfolding closedInv_def by auto
    qed
    with ret show ?thesis by simp
  next
    case False
    from lowestF_some [of "openSet s" "fScore s" None Infinity] i2 False
    obtain c where c: "lowestF (fScore s) (openSet s) None Infinity = Some c" by auto
    from lowestF_mem [OF c] have c_open: "c \<in> set (openSet s)" by simp
    with i1 have c_lt: "c < length G" by auto
    from c_open i2 obtain gc where gc: "gScore s c = Finite gc" by blast
    with i4 have gc0: "0 \<le> gc" by blast
    show ?thesis
    proof (cases "c = goal")
      case True
      from i6 gc obtain p where p: "chain (cameFrom s) start c p" by blast
      have ret: "astar nodes G goal False rnd s = Some p"
        using False c True chain_reconstruct [OF p, of "[]"]
        by (subst astar.simps) simp
      have "\<forall>x c. cameFrom s x = Some c \<longrightarrow> adjacent edges c x"
        using i5 adj lenG by auto
      from chain_route [OF this p] chain_ends [OF p] True
      have good: "p \<noteq> [] \<and> hd p = start \<and> last p = goal \<and> isRoute edges p" by simp
      with sound [OF good] ret show ?thesis by simp
    next
      case cg: False
      let ?s0 = "s\<lparr>openSet := removeAll c (openSet s)\<rparr>"
      let ?s1 = "foldl (relax nodes goal False rnd c) ?s0 (G ! c)"
      have step: "astar nodes G goal False rnd s = astar nodes G goal False rnd ?s1"
        using False c cg c_lt by (subst astar.simps) simp
      have p0: "pathInv G start ?s0" using pI unfolding pathInv_def by auto
      have g0: "gScore ?s0 c = Finite gc" using gc by simp
      have w0: "witInv nodes (length G) ?s0" using wI unfolding witInv_def by simp
      have p1: "pathInv G start ?s1"
        using pathInv_fold [OF p0 c_lt g0 subset_refl nbrs [OF c_lt]] by blast
      have c1: "closedInv G goal {} ?s1"
        by (rule closedInv_expand [OF cI gc gc0 cg c_lt])
      from witInv_fold [OF w0 g0 gc0 nbrs [OF c_lt], of goal rnd]
      have w1: "witInv nodes (length G) ?s1"
        and prog: "?s1 = ?s0 \<or> potential nodes (length G) ?s1 < potential nodes (length G) ?s0"
        by blast+
      have pot0: "potential nodes (length G) ?s0 = potential nodes (length G) s"
        by (simp add: potential_def pending_def)
      have len0: "length (openSet ?s0) < length (openSet s)"
        using c_open by (simp add: length_removeAll_less)
      have dec: "(?s1, s) \<in> R"
      proof (cases "?s1 = ?s0")
        case True
        then show ?thesis using pot0 len0 unfolding R_def by simp
      next
        case False
        with prog pot0 show ?thesis unfolding R_def by simp
      qed
      have "searchInv nodes G start goal ?s1" using p1 c1 w1 unfolding searchInv_def by blast
      from less.IH [OF dec this] step show ?thesis by simp
    qed
  qed
  qed
qed

lemma findPath_correct:
  assumes wf: "wellFormed nodes edges" and s: "start < length nodes" and g: "goal < length nodes"
  shows "\<exists>p. findPath nodes edges start goal False rnd = Some (Inr p)
           \<and> (start = goal \<longrightarrow> p = [start])
           \<and> (\<not> linked edges start goal \<longrightarrow> p = [])
           \<and> (linked edges start goal \<longrightarrow>
                p \<noteq> [] \<and> hd p = start \<and> last p = goal \<and> isRoute edges p)"
proof (cases "start = goal")
  case True
  then have "findPath nodes edges start goal False rnd = Some (Inr [start])"
    by (simp add: findPath_def)
  moreover have "linked edges start goal" using True by (simp add: linked_def)
  ultimately show ?thesis using True by simp
next
  case False
  from buildGraph_total [OF wf] obtain G where G: "buildGraph edges (length nodes) = Inr G"
    by blast
  have len: "length G = length nodes" by (rule buildGraph_ok(1) [OF G])
  have "searchInv nodes G start goal (initialState nodes start goal)"
    by (rule searchInv_initial) (use s len False in simp_all)
  from astar_correct [OF G this, of rnd] obtain p where
    p: "astar nodes G goal False rnd (initialState nodes start goal) = Some p"
       "if linked edges start goal
        then p \<noteq> [] \<and> hd p = start \<and> last p = goal \<and> isRoute edges p
        else p = []"
    by blast
  have "findPath nodes edges start goal False rnd = Some (Inr p)"
    using False G s g p(1) by (simp add: findPath_def)
  with p(2) False show ?thesis by (auto split: if_splits)
qed





section \<open>AgentRouter: movement and rerouting of an agent\<close>

definition nodeOf :: "node list \<Rightarrow> nat \<Rightarrow> node option" where
  "nodeOf nodes i = (if i < length nodes then Some (nodes ! i) else None)"

text \<open>
  \<open>update\<close>, in its three parts: the status effects, the arrival at the next node of
  the path, and the move towards it. Arriving at the node it is attracted to, the agent
  marks the node as processed and is no longer attracted. Standing exactly on its target
  with no speed, the source divides zero by zero and the position becomes \<open>NaN\<close>.
\<close>

definition tickEffects :: "real \<Rightarrow> enemy \<Rightarrow> enemy" where
  "tickEffects deltaTime e =
     (let e1 = (if attractionTimer e > 0
                then e\<lparr>attractionTimer := attractionTimer e - deltaTime\<rparr>
                else e\<lparr>slowFactor := 1.0\<rparr>)
      in if slowTimer e1 > 0
         then (let e' = e1\<lparr>slowTimer := slowTimer e1 - deltaTime\<rparr>
               in if slowTimer e' \<le> 0 then e'\<lparr>slowFactor := 1.0\<rparr> else e')
         else e1)"

definition arrive :: "enemy \<Rightarrow> error + enemy" where
  "arrive e =
     (let e3 = e\<lparr>currentPathIndex := Suc (currentPathIndex e)\<rparr>
      in if currentPathIndex e3 \<ge> length (e_path e3) then Inr (e3\<lparr>reachedGoal := True\<rparr>)
         else
           (let nextNodeIndex = e_path e3 ! currentPathIndex e3
            in case nodeOf (e_nodes e3) nextNodeIndex of
                 None \<Rightarrow> Inl TypeError
               | Some n \<Rightarrow>
                   (let e4 = e3\<lparr>e_x := node_x n, e_y := node_y n\<rparr>;
                        e5 = (if attractedToNode e4 = Some nextNodeIndex
                              then e4\<lparr>processedHoneypots :=
                                        insert nextNodeIndex (processedHoneypots e4),
                                      attractedToNode := None\<rparr>
                              else e4)
                    in if Suc (currentPathIndex e5) < length (e_path e5) then
                         (case nodeOf (e_nodes e5) (e_path e5 ! Suc (currentPathIndex e5)) of
                            None \<Rightarrow> Inl TypeError
                          | Some t \<Rightarrow> Inr (e5\<lparr>targetX := node_x t, targetY := node_y t\<rparr>))
                       else Inr e5)))"

definition enemy_update :: "real \<Rightarrow> enemy \<Rightarrow> error + enemy" where
  "enemy_update deltaTime e =
     (if \<not> alive e \<or> reachedGoal e then Inr e
      else
        (let e2 = tickEffects deltaTime e;
             dx = targetX e2 - e_x e2;
             dy = targetY e2 - e_y e2;
             dist = sqrt (dx * dx + dy * dy);
             effectiveSpeed = speed e2 * slowFactor e2 * (deltaTime / 16)
         in if dist < effectiveSpeed then arrive e2
            else if dist = 0 then Inl NotANumber
            else Inr (e2\<lparr>e_x := e_x e2 + (dx / dist) * effectiveSpeed,
                         e_y := e_y e2 + (dy / dist) * effectiveSpeed\<rparr>)))"

text \<open>Legitimate traffic takes no damage; \<open>health\<close> may be \<open>Infinity\<close>.\<close>

definition takeDamage :: "real \<Rightarrow> enemy \<Rightarrow> enemy" where
  "takeDamage amount e =
     (if (case e_config e of Some c \<Rightarrow> cfg_legitimate c | None \<Rightarrow> False) then e
      else (case health e of
              Infinity \<Rightarrow> e
            | Finite h \<Rightarrow>
                (let e1 = e\<lparr>health := Finite (h - amount)\<rparr>
                 in if h - amount \<le> 0 then e1\<lparr>alive := False\<rparr> else e1)))"

definition applySlow :: "real \<Rightarrow> real \<Rightarrow> enemy \<Rightarrow> enemy" where
  "applySlow factor duration e =
     e\<lparr>slowFactor := min (slowFactor e) factor, slowTimer := max (slowTimer e) duration\<rparr>"

definition applyAttraction :: "real \<Rightarrow> real \<Rightarrow> real \<Rightarrow> enemy \<Rightarrow> enemy" where
  "applyAttraction duration tx ty e =
     e\<lparr>attractionTimer := max (attractionTimer e) duration, attractionX := tx, attractionY := ty\<rparr>"

definition restoreOriginalPath :: "enemy \<Rightarrow> error + enemy" where
  "restoreOriginalPath e =
     (case originalPath e of
        None \<Rightarrow> Inr e
      | Some orig \<Rightarrow>
          (let e1 = e\<lparr>attractedToNode := None, e_path := orig, originalPath := None\<rparr>
           in if Suc (currentPathIndex e1) < length (e_path e1) then
                (case nodeOf (e_nodes e1) (e_path e1 ! Suc (currentPathIndex e1)) of
                   None \<Rightarrow> Inl TypeError
                 | Some t \<Rightarrow> Inr (e1\<lparr>targetX := node_x t, targetY := node_y t\<rparr>))
              else Inr e1))"

text \<open>
  \<open>rerouteToNode\<close> runs inside \<open>try\<close>/\<open>catch\<close>: an exception is logged and dropped, and
  what was written before it stays written. The outcome says how the call ended: by a
  \<open>return\<close> statement, at the end of the body after the splice, or in the \<open>catch\<close>
  block. The agent may have been constructed without edges (\<open>edges = null\<close>), on which
  \<open>buildGraph\<close> throws.
\<close>

datatype outcome = Returned | Rerouted | Caught

definition enemyFindPath ::
  "enemy \<Rightarrow> nat \<Rightarrow> nat \<Rightarrow> (nat \<Rightarrow> real) \<Rightarrow> (error + nat list) option" where
  "enemyFindPath e a b rnd =
     (if a = b then Some (Inr [a])
      else (case e_edges e of
              None \<Rightarrow> Some (Inl TypeError)
            | Some es \<Rightarrow> findPath (e_nodes e) es a b False rnd))"

text \<open>
  The splice, once the three paths are known and the path to the goal is not empty: the
  choice between continuing and reversing, and the block that installs the new path.
  The test that the two path entries are defined cannot fail after the test on the index
  and is left out.
\<close>

definition useNextChoice ::
  "nat \<Rightarrow> nat \<Rightarrow> real \<Rightarrow> real \<Rightarrow> nat list \<Rightarrow> nat list \<Rightarrow> bool" where
  "useNextChoice nodeId prevNodeId distToPrev distToNext pathFromPrev pathFromNext =
     (if pathFromPrev \<noteq> [] then
        (if prevNodeId = nodeId then False
         else if pathFromNext = [] then False
         else \<not> (distToPrev + real (length pathFromPrev) * 100
                   < (distToNext + real (length pathFromNext) * 100) * 1.1))
      else True)"

definition applyPath :: "nat list \<Rightarrow> enemy \<Rightarrow> outcome \<times> enemy" where
  "applyPath fullPath e =
     (let e1 = e\<lparr>e_path := fullPath, currentPathIndex := 0\<rparr>;
          e2 = (case nodeOf (e_nodes e1) (fullPath ! 0) of
                  Some sn \<Rightarrow> e1\<lparr>e_x := node_x sn, e_y := node_y sn\<rparr>
                | None \<Rightarrow> e1)
      in if length fullPath > 1 then
           (case nodeOf (e_nodes e2) (fullPath ! 1) of
              Some tn \<Rightarrow> (Rerouted, e2\<lparr>targetX := node_x tn, targetY := node_y tn\<rparr>)
            | None \<Rightarrow> (Caught, e2))
         else (Rerouted, e2))"

definition splice ::
  "nat \<Rightarrow> enemy \<Rightarrow> nat \<Rightarrow> nat \<Rightarrow> nat list \<Rightarrow> nat list \<Rightarrow> nat list \<Rightarrow> outcome \<times> enemy" where
  "splice nodeId e prevNodeId nextNodeId pathFromPrev pathFromNext pathHpToGoal =
     (case nodeOf (e_nodes e) prevNodeId of
        None \<Rightarrow> (Caught, e)
      | Some pn \<Rightarrow>
          (case nodeOf (e_nodes e) nextNodeId of
             None \<Rightarrow> (Caught, e)
           | Some nn \<Rightarrow>
               (let distToPrev = distance (e_x e) (e_y e) (node_x pn) (node_y pn);
                    distToNext = distance (e_x e) (e_y e) (node_x nn) (node_y nn)
                in if pathFromPrev = [] \<and> pathFromNext = [] then (Returned, e)
                   else
                     (let pathToHp =
                            (if useNextChoice nodeId prevNodeId distToPrev distToNext
                                  pathFromPrev pathFromNext
                             then prevNodeId # pathFromNext
                             else nextNodeId # pathFromPrev)
                      in applyPath (pathToHp @ tl pathHpToGoal) e))))"

text \<open>The guards of \<open>rerouteToNode\<close>, then the three searches and the splice.\<close>

definition markAttracted :: "nat \<Rightarrow> enemy \<Rightarrow> enemy" where
  "markAttracted nodeId e =
     e\<lparr>originalPath := (case originalPath e of None \<Rightarrow> Some (e_path e)
                                          | Some orig \<Rightarrow> Some orig),
       attractedToNode := Some nodeId\<rparr>"

definition searchAndSplice :: "nat \<Rightarrow> (nat \<Rightarrow> real) \<Rightarrow> enemy \<Rightarrow> (outcome \<times> enemy) option" where
  "searchAndSplice nodeId rnd e1 =
     (let prevNodeId = e_path e1 ! currentPathIndex e1;
          nextNodeId = e_path e1 ! Suc (currentPathIndex e1);
          goalNodeId = last (e_path e1)
      in case enemyFindPath e1 prevNodeId nodeId rnd of
           None \<Rightarrow> None
         | Some (Inl err) \<Rightarrow> Some (Caught, e1)
         | Some (Inr pathFromPrev) \<Rightarrow>
             (case enemyFindPath e1 nextNodeId nodeId rnd of
                None \<Rightarrow> None
              | Some (Inl err) \<Rightarrow> Some (Caught, e1)
              | Some (Inr pathFromNext) \<Rightarrow>
                  (case enemyFindPath e1 nodeId goalNodeId rnd of
                     None \<Rightarrow> None
                   | Some (Inl err) \<Rightarrow> Some (Caught, e1)
                   | Some (Inr pathHpToGoal) \<Rightarrow>
                       if pathHpToGoal = [] then Some (Returned, e1)
                       else Some (splice nodeId e1 prevNodeId nextNodeId
                                    pathFromPrev pathFromNext pathHpToGoal))))"

definition rerouteToNode :: "nat \<Rightarrow> (nat \<Rightarrow> real) \<Rightarrow> enemy \<Rightarrow> (outcome \<times> enemy) option" where
  "rerouteToNode nodeId rnd e =
     (if nodeId \<in> processedHoneypots e then Some (Returned, e)
      else if attractedToNode e \<noteq> None \<and> attractedToNode e \<noteq> Some nodeId then Some (Returned, e)
      else if attractedToNode e = Some nodeId
              \<and> \<not> (currentPathIndex e < length (e_path e)
                    \<and> e_path e ! currentPathIndex e = nodeId) then Some (Returned, e)
      else if e_path e = [] then Some (Returned, e)
      else if Suc (currentPathIndex e) \<ge> length (e_path e) then Some (Returned, e)
      else searchAndSplice nodeId rnd (markAttracted nodeId e))"


subsection \<open>Processed attractors\<close>

text \<open>Whatever happens to an agent between two attraction events.\<close>

datatype agent_op =
    OpUpdate real
  | OpReroute nat
  | OpAttract real real real
  | OpRestore
  | OpDamage real
  | OpSlow real real

fun applyOp :: "(nat \<Rightarrow> real) \<Rightarrow> agent_op \<Rightarrow> enemy \<Rightarrow> enemy option" where
  "applyOp rnd (OpUpdate deltaTime) e =
     (case enemy_update deltaTime e of Inl err \<Rightarrow> None | Inr e' \<Rightarrow> Some e')"
| "applyOp rnd (OpReroute nodeId) e = map_option snd (rerouteToNode nodeId rnd e)"
| "applyOp rnd (OpAttract duration tx ty) e = Some (applyAttraction duration tx ty e)"
| "applyOp rnd OpRestore e =
     (case restoreOriginalPath e of Inl err \<Rightarrow> None | Inr e' \<Rightarrow> Some e')"
| "applyOp rnd (OpDamage amount) e = Some (takeDamage amount e)"
| "applyOp rnd (OpSlow factor duration) e = Some (applySlow factor duration e)"

fun applyOps :: "(nat \<Rightarrow> real) \<Rightarrow> agent_op list \<Rightarrow> enemy \<Rightarrow> enemy option" where
  "applyOps rnd [] e = Some e"
| "applyOps rnd (op # ops) e =
     (case applyOp rnd op e of None \<Rightarrow> None | Some e' \<Rightarrow> applyOps rnd ops e')"

lemma applyPath_processed:
  "processedHoneypots (snd (applyPath fp e)) = processedHoneypots e"
  by (simp add: applyPath_def Let_def split: option.split)

lemma splice_processed:
  "processedHoneypots (snd (splice h e a b p1 p2 p3)) = processedHoneypots e"
  by (simp add: splice_def Let_def applyPath_processed split: option.split)



lemma searchAndSplice_cases:
  assumes "searchAndSplice h rnd e = Some r"
  shows "r = (Caught, e) \<or> r = (Returned, e) \<or> (\<exists>a b p1 p2 p3. r = splice h e a b p1 p2 p3)"
proof -
  let ?prev = "e_path e ! currentPathIndex e"
  let ?next = "e_path e ! Suc (currentPathIndex e)"
  let ?goal = "last (e_path e)"
  show ?thesis
  proof (cases "enemyFindPath e ?prev h rnd")
    case None
    with assms show ?thesis by (simp add: searchAndSplice_def Let_def)
  next
    case (Some r1)
    show ?thesis
    proof (cases r1)
      case (Inl err)
      with Some assms show ?thesis by (simp add: searchAndSplice_def Let_def)
    next
      case (Inr p1)
      note r1 = Some [unfolded Inr]
      show ?thesis
      proof (cases "enemyFindPath e ?next h rnd")
        case None
        with r1 assms show ?thesis by (simp add: searchAndSplice_def Let_def)
      next
        case (Some r2)
        show ?thesis
        proof (cases r2)
          case (Inl err)
          with Some r1 assms show ?thesis by (simp add: searchAndSplice_def Let_def)
        next
          case (Inr p2)
          note r2 = Some [unfolded Inr]
          show ?thesis
          proof (cases "enemyFindPath e h ?goal rnd")
            case None
            with r1 r2 assms show ?thesis by (simp add: searchAndSplice_def Let_def)
          next
            case (Some r3)
            show ?thesis
            proof (cases r3)
              case (Inl err)
              with Some r1 r2 assms show ?thesis by (simp add: searchAndSplice_def Let_def)
            next
              case (Inr p3)
              with Some r1 r2 assms have "r = (Returned, e) \<or> r = splice h e ?prev ?next p1 p2 p3"
                by (simp add: searchAndSplice_def Let_def split: if_splits)
              then show ?thesis by blast
            qed
          qed
        qed
      qed
    qed
  qed
qed

lemma searchAndSplice_processed:
  assumes "searchAndSplice h rnd e = Some r"
  shows "processedHoneypots (snd r) = processedHoneypots e"
  using searchAndSplice_cases [OF assms] splice_processed [of h e] by auto

lemma rerouteToNode_cases:
  assumes "rerouteToNode h rnd e = Some r"
  shows "r = (Returned, e) \<or> searchAndSplice h rnd (markAttracted h e) = Some r"
  using assms by (simp add: rerouteToNode_def split: if_splits)

lemma markAttracted_fields:
  "processedHoneypots (markAttracted h e) = processedHoneypots e"
  "e_path (markAttracted h e) = e_path e"
  "currentPathIndex (markAttracted h e) = currentPathIndex e"
  "e_nodes (markAttracted h e) = e_nodes e"
  "e_edges (markAttracted h e) = e_edges e"
  by (simp_all add: markAttracted_def)

lemma rerouteToNode_processed:
  assumes "rerouteToNode h rnd e = Some r"
  shows "processedHoneypots (snd r) = processedHoneypots e"
proof -
  from rerouteToNode_cases [OF assms] show ?thesis
  proof
    assume "r = (Returned, e)"
    then show ?thesis by simp
  next
    assume "searchAndSplice h rnd (markAttracted h e) = Some r"
    from searchAndSplice_processed [OF this] show ?thesis by (simp add: markAttracted_fields)
  qed
qed

lemma tickEffects_fields:
  "processedHoneypots (tickEffects dt e) = processedHoneypots e"
  "attractedToNode (tickEffects dt e) = attractedToNode e"
  "e_path (tickEffects dt e) = e_path e"
  "currentPathIndex (tickEffects dt e) = currentPathIndex e"
  by (simp_all add: tickEffects_def Let_def)

lemma arrive_processed:
  assumes "arrive e = Inr e'"
  shows "processedHoneypots e' = processedHoneypots e
       \<or> (\<exists>k. attractedToNode e = Some k
              \<and> Suc (currentPathIndex e) < length (e_path e)
              \<and> e_path e ! Suc (currentPathIndex e) = k
              \<and> currentPathIndex e' = Suc (currentPathIndex e)
              \<and> processedHoneypots e' = insert k (processedHoneypots e))"
  using assms unfolding arrive_def Let_def
  by (auto split: if_splits option.splits simp: not_le)

lemma enemy_update_processed:
  assumes "enemy_update dt e = Inr e'"
  shows "processedHoneypots e' = processedHoneypots e
       \<or> (\<exists>k. attractedToNode e = Some k
              \<and> Suc (currentPathIndex e) < length (e_path e)
              \<and> e_path e ! Suc (currentPathIndex e) = k
              \<and> currentPathIndex e' = Suc (currentPathIndex e)
              \<and> processedHoneypots e' = insert k (processedHoneypots e))"
proof (cases "\<not> alive e \<or> reachedGoal e")
  case True
  with assms show ?thesis by (simp add: enemy_update_def)
next
  case False
  let ?e2 = "tickEffects dt e"
  from assms False consider "arrive ?e2 = Inr e'"
    | "processedHoneypots e' = processedHoneypots ?e2"
    unfolding enemy_update_def Let_def by (auto split: if_splits)
  then show ?thesis
  proof cases
    case 1
    from arrive_processed [OF 1] show ?thesis by (simp add: tickEffects_fields)
  next
    case 2
    then show ?thesis by (simp add: tickEffects_fields)
  qed
qed

lemma other_ops_processed:
  "processedHoneypots (takeDamage amount e) = processedHoneypots e"
  "processedHoneypots (applySlow factor duration e) = processedHoneypots e"
  "processedHoneypots (applyAttraction duration tx ty e) = processedHoneypots e"
  by (simp_all add: takeDamage_def applySlow_def applyAttraction_def Let_def split: score.split)

lemma restore_processed:
  "restoreOriginalPath e = Inr e' \<Longrightarrow> processedHoneypots e' = processedHoneypots e"
  unfolding restoreOriginalPath_def Let_def
  by (auto split: option.splits if_splits)

lemma applyOp_grows:
  assumes "applyOp rnd op e = Some e'"
  shows "processedHoneypots e \<subseteq> processedHoneypots e'"
proof (cases op)
  case (OpUpdate dt)
  with assms have "enemy_update dt e = Inr e'" by (simp split: sum.splits)
  from enemy_update_processed [OF this] show ?thesis by auto
next
  case (OpReroute h)
  with assms obtain r where "rerouteToNode h rnd e = Some r" "e' = snd r" by auto
  with rerouteToNode_processed [of h rnd e r] show ?thesis by simp
next
  case (OpAttract d tx ty)
  with assms show ?thesis by (auto simp: other_ops_processed)
next
  case OpRestore
  with assms have "restoreOriginalPath e = Inr e'" by (simp split: sum.splits)
  from restore_processed [OF this] show ?thesis by simp
next
  case (OpDamage a)
  with assms show ?thesis by (auto simp: other_ops_processed)
next
  case (OpSlow f d)
  with assms show ?thesis by (auto simp: other_ops_processed)
qed

lemma applyOps_grows:
  "applyOps rnd ops e = Some e' \<Longrightarrow> processedHoneypots e \<subseteq> processedHoneypots e'"
proof (induction ops arbitrary: e)
  case Nil
  then show ?case by simp
next
  case (Cons op ops)
  from Cons.prems obtain e1 where e1: "applyOp rnd op e = Some e1" "applyOps rnd ops e1 = Some e'"
    by (auto split: option.splits)
  from applyOp_grows [OF e1(1)] Cons.IH [OF e1(2)] show ?case by blast
qed

lemma arrive_marks:
  assumes "arrive e = Inr e'" and "Suc (currentPathIndex e) < length (e_path e)"
    and "attractedToNode e = Some (e_path e ! Suc (currentPathIndex e))"
  shows "e_path e ! Suc (currentPathIndex e) \<in> processedHoneypots e'
       \<and> attractedToNode e' = None \<and> currentPathIndex e' = Suc (currentPathIndex e)"
  using assms unfolding arrive_def Let_def
  by (auto split: if_splits option.splits simp: not_le)

lemma enemy_update_index:
  assumes "enemy_update dt e = Inr e'" and "currentPathIndex e' \<noteq> currentPathIndex e"
  shows "arrive (tickEffects dt e) = Inr e'"
proof (cases "\<not> alive e \<or> reachedGoal e")
  case True
  with assms show ?thesis by (simp add: enemy_update_def)
next
  case False
  let ?e2 = "tickEffects dt e"
  from assms(1) False consider "arrive ?e2 = Inr e'"
    | "currentPathIndex e' = currentPathIndex ?e2"
    unfolding enemy_update_def Let_def by (auto split: if_splits)
  then show ?thesis
  proof cases
    case 1
    then show ?thesis .
  next
    case 2
    with assms(2) show ?thesis by (simp add: tickEffects_fields)
  qed
qed

lemma enemy_update_marks:
  assumes "enemy_update dt e = Inr e'" and "currentPathIndex e' = Suc (currentPathIndex e)"
    and "Suc (currentPathIndex e) < length (e_path e)"
    and "attractedToNode e = Some (e_path e ! Suc (currentPathIndex e))"
  shows "e_path e ! Suc (currentPathIndex e) \<in> processedHoneypots e' \<and> attractedToNode e' = None"
proof -
  from assms(2) have "currentPathIndex e' \<noteq> currentPathIndex e" by simp
  from enemy_update_index [OF assms(1) this] have a: "arrive (tickEffects dt e) = Inr e'" .
  from arrive_marks [OF a] assms(3,4) show ?thesis by (simp add: tickEffects_fields)
qed

lemma tickEffects_nodes: "e_nodes (tickEffects dt e) = e_nodes e"
  by (simp add: tickEffects_def Let_def)

lemma arrive_returns:
  assumes "Suc (currentPathIndex e) < length (e_path e)"
    and "set (e_path e) \<subseteq> {..<length (e_nodes e)}"
  shows "\<exists>e'. arrive e = Inr e'"
proof -
  have "i < length (e_path e) \<Longrightarrow> e_path e ! i < length (e_nodes e)" for i
    using assms(2) by (auto simp: subset_iff)
  then show ?thesis
    using assms(1) unfolding arrive_def Let_def
    by (auto simp: nodeOf_def not_le split: option.splits)
qed

lemma enemy_update_arrives:
  assumes "alive e" and "\<not> reachedGoal e"
    and "sqrt ((targetX e - e_x e) * (targetX e - e_x e) + (targetY e - e_y e) * (targetY e - e_y e))
           < speed e * slowFactor (tickEffects dt e) * (dt / 16)"
    and "Suc (currentPathIndex e) < length (e_path e)"
    and "set (e_path e) \<subseteq> {..<length (e_nodes e)}"
  shows "\<exists>e'. enemy_update dt e = Inr e' \<and> currentPathIndex e' = Suc (currentPathIndex e)"
proof -
  let ?e2 = "tickEffects dt e"
  have f: "targetX ?e2 = targetX e" "targetY ?e2 = targetY e" "e_x ?e2 = e_x e" "e_y ?e2 = e_y e"
    "speed ?e2 = speed e"
    by (simp_all add: tickEffects_def Let_def)
  from assms(1,2,3) have u: "enemy_update dt e = arrive ?e2"
    by (simp add: enemy_update_def Let_def f)
  from arrive_returns [of ?e2] assms(4,5) obtain e' where a: "arrive ?e2 = Inr e'"
    by (auto simp: tickEffects_fields tickEffects_nodes)
  from a assms(4) have "currentPathIndex e' = Suc (currentPathIndex e)"
    unfolding arrive_def Let_def
    by (auto simp: tickEffects_fields not_le split: if_splits option.splits)
  with u a show ?thesis by simp
qed

text \<open>
  C7. An attraction event for a node that the agent has processed returns at once and
  leaves the agent as it was: path, index into the path and attraction state. The set of
  processed nodes only grows, whatever happens to the agent (updates, attraction events,
  damage, slowing, restoring the original path), so the event stays without effect ever
  after. A node enters the set only in \<open>update\<close>, when the agent arrives at the node it is
  attracted to; and it does enter it then: an update that moves the index to the next
  node of the path, that node being the one the agent is attracted to, puts the node
  into the set and ends the attraction. A living agent within reach of its target, on a
  path of node indices, makes that move.
\<close>

theorem visited_attractor_idempotent:
  "(h \<in> processedHoneypots e \<longrightarrow> rerouteToNode h rnd e = Some (Returned, e))
   \<and> (\<forall>e'. applyOps rnd ops e = Some e' \<longrightarrow>
          processedHoneypots e \<subseteq> processedHoneypots e'
          \<and> (h \<in> processedHoneypots e \<longrightarrow> rerouteToNode h rnd e' = Some (Returned, e')))
   \<and> (\<forall>e'. enemy_update dt e = Inr e' \<longrightarrow>
          processedHoneypots e' = processedHoneypots e
          \<or> (\<exists>k. attractedToNode e = Some k
                 \<and> Suc (currentPathIndex e) < length (e_path e)
                 \<and> e_path e ! Suc (currentPathIndex e) = k
                 \<and> currentPathIndex e' = Suc (currentPathIndex e)
                 \<and> processedHoneypots e' = insert k (processedHoneypots e)))
   \<and> (\<forall>e'. enemy_update dt e = Inr e'
          \<and> currentPathIndex e' = Suc (currentPathIndex e)
          \<and> Suc (currentPathIndex e) < length (e_path e)
          \<and> attractedToNode e = Some (e_path e ! Suc (currentPathIndex e))
        \<longrightarrow> e_path e ! Suc (currentPathIndex e) \<in> processedHoneypots e'
            \<and> attractedToNode e' = None
            \<and> rerouteToNode (e_path e ! Suc (currentPathIndex e)) rnd e' = Some (Returned, e'))
   \<and> (alive e \<and> \<not> reachedGoal e
        \<and> sqrt ((targetX e - e_x e) * (targetX e - e_x e) + (targetY e - e_y e) * (targetY e - e_y e))
              < speed e * slowFactor (tickEffects dt e) * (dt / 16)
        \<and> Suc (currentPathIndex e) < length (e_path e)
        \<and> set (e_path e) \<subseteq> {..<length (e_nodes e)}
        \<and> attractedToNode e = Some (e_path e ! Suc (currentPathIndex e))
        \<longrightarrow> (\<exists>e'. enemy_update dt e = Inr e'
              \<and> currentPathIndex e' = Suc (currentPathIndex e)
              \<and> e_path e ! Suc (currentPathIndex e) \<in> processedHoneypots e'
              \<and> attractedToNode e' = None))"
proof -
  have noop: "rerouteToNode h rnd e0 = Some (Returned, e0)" if "h \<in> processedHoneypots e0"
    for e0 h
    using that by (simp add: rerouteToNode_def)
  have later: "processedHoneypots e \<subseteq> processedHoneypots e'
          \<and> (h \<in> processedHoneypots e \<longrightarrow> rerouteToNode h rnd e' = Some (Returned, e'))"
    if "applyOps rnd ops e = Some e'" for e'
    using applyOps_grows [OF that] noop [of h e'] by blast
  have adds: "e_path e ! Suc (currentPathIndex e) \<in> processedHoneypots e'
            \<and> attractedToNode e' = None
            \<and> rerouteToNode (e_path e ! Suc (currentPathIndex e)) rnd e' = Some (Returned, e')"
    if "enemy_update dt e = Inr e'
          \<and> currentPathIndex e' = Suc (currentPathIndex e)
          \<and> Suc (currentPathIndex e) < length (e_path e)
          \<and> attractedToNode e = Some (e_path e ! Suc (currentPathIndex e))" for e'
  proof -
    from that have 1: "enemy_update dt e = Inr e'"
      and 2: "currentPathIndex e' = Suc (currentPathIndex e)"
      and 3: "Suc (currentPathIndex e) < length (e_path e)"
      and 4: "attractedToNode e = Some (e_path e ! Suc (currentPathIndex e))" by blast+
    from enemy_update_marks [OF 1 2 3 4] noop [of "e_path e ! Suc (currentPathIndex e)" e']
    show ?thesis by blast
  qed
  have arrives: "\<exists>e'. enemy_update dt e = Inr e'
              \<and> currentPathIndex e' = Suc (currentPathIndex e)
              \<and> e_path e ! Suc (currentPathIndex e) \<in> processedHoneypots e'
              \<and> attractedToNode e' = None"
    if "alive e \<and> \<not> reachedGoal e
        \<and> sqrt ((targetX e - e_x e) * (targetX e - e_x e) + (targetY e - e_y e) * (targetY e - e_y e))
              < speed e * slowFactor (tickEffects dt e) * (dt / 16)
        \<and> Suc (currentPathIndex e) < length (e_path e)
        \<and> set (e_path e) \<subseteq> {..<length (e_nodes e)}
        \<and> attractedToNode e = Some (e_path e ! Suc (currentPathIndex e))"
  proof -
    from that have 1: "alive e" and 2: "\<not> reachedGoal e"
      and 3: "sqrt ((targetX e - e_x e) * (targetX e - e_x e)
                    + (targetY e - e_y e) * (targetY e - e_y e))
              < speed e * slowFactor (tickEffects dt e) * (dt / 16)"
      and 4: "Suc (currentPathIndex e) < length (e_path e)"
      and 5: "set (e_path e) \<subseteq> {..<length (e_nodes e)}"
      and 6: "attractedToNode e = Some (e_path e ! Suc (currentPathIndex e))" by blast+
    from enemy_update_arrives [OF 1 2 3 4 5] obtain e' where
      u: "enemy_update dt e = Inr e'" "currentPathIndex e' = Suc (currentPathIndex e)" by blast
    from enemy_update_marks [OF u 4 6] u show ?thesis by blast
  qed
  show ?thesis
  proof (intro conjI allI impI)
    assume "h \<in> processedHoneypots e"
    then show "rerouteToNode h rnd e = Some (Returned, e)" by (rule noop)
  next
    fix e' assume r: "applyOps rnd ops e = Some e'"
    from later [OF r] show "processedHoneypots e \<subseteq> processedHoneypots e'" by blast
    assume "h \<in> processedHoneypots e"
    with later [OF r] show "rerouteToNode h rnd e' = Some (Returned, e')" by blast
  next
    fix e' assume "enemy_update dt e = Inr e'"
    then show "processedHoneypots e' = processedHoneypots e
          \<or> (\<exists>k. attractedToNode e = Some k
                 \<and> Suc (currentPathIndex e) < length (e_path e)
                 \<and> e_path e ! Suc (currentPathIndex e) = k
                 \<and> currentPathIndex e' = Suc (currentPathIndex e)
                 \<and> processedHoneypots e' = insert k (processedHoneypots e))"
      by (rule enemy_update_processed)
  next
    fix e' assume a: "enemy_update dt e = Inr e'
          \<and> currentPathIndex e' = Suc (currentPathIndex e)
          \<and> Suc (currentPathIndex e) < length (e_path e)
          \<and> attractedToNode e = Some (e_path e ! Suc (currentPathIndex e))"
    from adds [OF a] show "e_path e ! Suc (currentPathIndex e) \<in> processedHoneypots e'"
      and "attractedToNode e' = None"
      and "rerouteToNode (e_path e ! Suc (currentPathIndex e)) rnd e' = Some (Returned, e')"
      by blast+
  next
    assume "alive e \<and> \<not> reachedGoal e
        \<and> sqrt ((targetX e - e_x e) * (targetX e - e_x e) + (targetY e - e_y e) * (targetY e - e_y e))
              < speed e * slowFactor (tickEffects dt e) * (dt / 16)
        \<and> Suc (currentPathIndex e) < length (e_path e)
        \<and> set (e_path e) \<subseteq> {..<length (e_nodes e)}
        \<and> attractedToNode e = Some (e_path e ! Suc (currentPathIndex e))"
    then show "\<exists>e'. enemy_update dt e = Inr e'
              \<and> currentPathIndex e' = Suc (currentPathIndex e)
              \<and> e_path e ! Suc (currentPathIndex e) \<in> processedHoneypots e'
              \<and> attractedToNode e' = None"
      by (rule arrives)
  qed
qed

theorem visited_attractor_idempotent_witness:
  "\<exists>e e'. newEnemy ''BASIC'' [0, 1, 2]
              [\<lparr>node_id = 0, node_x = 0, node_y = 0, node_type = Source\<rparr>,
               \<lparr>node_id = 1, node_x = 100, node_y = 0, node_type = Normal\<rparr>,
               \<lparr>node_id = 2, node_x = 200, node_y = 0, node_type = Goal\<rparr>]
              (Some [(0, 1), (1, 2)]) = Inr e
     \<and> applyOps (\<lambda>k. 0) [OpUpdate 16, OpAttract 3000 100 0]
           (e\<lparr>e_x := 99, attractedToNode := Some 1\<rparr>) = Some e'
     \<and> processedHoneypots e' = {1}
     \<and> currentPathIndex e' = 1
     \<and> rerouteToNode 1 (\<lambda>k. 0) e' = Some (Returned, e')
     \<and> (\<exists>e1. enemy_update 16 (e\<lparr>e_x := 99, attractedToNode := Some 1\<rparr>) = Inr e1
            \<and> currentPathIndex e1 = 1 \<and> 1 \<in> processedHoneypots e1 \<and> attractedToNode e1 = None)"
proof -
  let ?N = "[\<lparr>node_id = 0, node_x = 0, node_y = 0, node_type = Source\<rparr>,
               \<lparr>node_id = 1, node_x = 100, node_y = 0, node_type = Normal\<rparr>,
               \<lparr>node_id = 2, node_x = 200, node_y = 0, node_type = Goal\<rparr>]"
  obtain e where e: "newEnemy ''BASIC'' [0, 1, 2] ?N (Some [(0, 1), (1, 2)]) = Inr e"
    and f: "processedHoneypots e = {}" "currentPathIndex e = 0" "e_path e = [0, 1, 2]"
       "e_nodes e = ?N" "alive e" "\<not> reachedGoal e" "targetX e = 100" "targetY e = 0"
       "e_y e = 0" "speed e = 1.5" "slowFactor e = 1" "slowTimer e = 0" "attractionTimer e = 0"
    by (simp add: newEnemy_def nodeAt_def ENEMIES_def)
  let ?e0 = "e\<lparr>e_x := 99, attractedToNode := Some 1\<rparr>"
  obtain e1 where e1: "enemy_update 16 ?e0 = Inr e1"
    and g: "processedHoneypots e1 = {1}" "currentPathIndex e1 = 1"
    by (simp add: enemy_update_def tickEffects_def arrive_def nodeOf_def f Let_def)
  define e' where "e' = applyAttraction 3000 100 0 e1"
  have run: "applyOps (\<lambda>k. 0) [OpUpdate 16, OpAttract 3000 100 0] ?e0 = Some e'"
    using e1 by (simp add: e'_def)
  have h: "processedHoneypots e' = {1}" "currentPathIndex e' = 1"
    by (simp_all add: e'_def applyAttraction_def g)
  note main = visited_attractor_idempotent
      [of 1 ?e0 "\<lambda>k. 0" "[OpUpdate 16, OpAttract 3000 100 0]" 16]
  from main run h have again: "rerouteToNode 1 (\<lambda>k. 0) e' = Some (Returned, e')"
    by (simp add: rerouteToNode_def)
  have reach: "alive ?e0 \<and> \<not> reachedGoal ?e0
        \<and> sqrt ((targetX ?e0 - e_x ?e0) * (targetX ?e0 - e_x ?e0)
                + (targetY ?e0 - e_y ?e0) * (targetY ?e0 - e_y ?e0))
              < speed ?e0 * slowFactor (tickEffects 16 ?e0) * (16 / 16)
        \<and> Suc (currentPathIndex ?e0) < length (e_path ?e0)
        \<and> set (e_path ?e0) \<subseteq> {..<length (e_nodes ?e0)}
        \<and> attractedToNode ?e0 = Some (e_path ?e0 ! Suc (currentPathIndex ?e0))"
    by (simp add: f tickEffects_def Let_def)
  from main [THEN conjunct2, THEN conjunct2, THEN conjunct2, THEN conjunct2, THEN mp, OF reach]
  have arrival: "\<exists>e1. enemy_update 16 ?e0 = Inr e1
            \<and> currentPathIndex e1 = 1 \<and> 1 \<in> processedHoneypots e1 \<and> attractedToNode e1 = None"
    by (simp add: f)
  from e run h again arrival show ?thesis by blast
qed


subsection \<open>Rerouting that finds no route\<close>

lemma enemyFindPath_eq:
  "e_edges e = Some es \<Longrightarrow> enemyFindPath e a b rnd = findPath (e_nodes e) es a b False rnd"
  by (simp add: enemyFindPath_def findPath_def)

text \<open>
  An agent that holds the edges of a well-formed graph, with a path of node indices, and
  an attraction event for a node index: the three searches return, and when one of them
  finds no route the call ends by a \<open>return\<close> statement.
\<close>

lemma reroute_returns_on_graph:
  assumes edges: "e_edges e = Some es" and wf: "wellFormed (e_nodes e) es"
    and path: "set (e_path e) \<subseteq> {..<length (e_nodes e)}" and h: "h < length (e_nodes e)"
    and fail: "\<not> linked es h (last (e_path e))
               \<or> (\<not> linked es (e_path e ! currentPathIndex e) h
                  \<and> \<not> linked es (e_path e ! Suc (currentPathIndex e)) h)"
  shows "\<exists>e'. rerouteToNode h rnd e = Some (Returned, e')
              \<and> e_path e' = e_path e \<and> currentPathIndex e' = currentPathIndex e"
proof (cases "rerouteToNode h rnd e = Some (Returned, e)")
  case True
  then show ?thesis by blast
next
  case False
  then have run: "rerouteToNode h rnd e = searchAndSplice h rnd (markAttracted h e)"
    and ne: "e_path e \<noteq> []" and idx: "Suc (currentPathIndex e) < length (e_path e)"
    by (auto simp: rerouteToNode_def split: if_splits)
  let ?e1 = "markAttracted h e"
  let ?prev = "e_path e ! currentPathIndex e"
  let ?next = "e_path e ! Suc (currentPathIndex e)"
  let ?goal = "last (e_path e)"
  have e1: "e_edges ?e1 = Some es" "e_nodes ?e1 = e_nodes e" "e_path ?e1 = e_path e"
      "currentPathIndex ?e1 = currentPathIndex e"
    using edges by (simp_all add: markAttracted_fields)
  have prev: "?prev < length (e_nodes e)" and nxt: "?next < length (e_nodes e)"
    and goal: "?goal < length (e_nodes e)"
    using path idx ne by (auto simp: subset_iff)
  from findPath_correct [OF wf prev h, of rnd] obtain p1 where
    p1: "findPath (e_nodes e) es ?prev h False rnd = Some (Inr p1)"
        "\<not> linked es ?prev h \<longrightarrow> p1 = []" by blast
  from findPath_correct [OF wf nxt h, of rnd] obtain p2 where
    p2: "findPath (e_nodes e) es ?next h False rnd = Some (Inr p2)"
        "\<not> linked es ?next h \<longrightarrow> p2 = []" by blast
  from findPath_correct [OF wf h goal, of rnd] obtain p3 where
    p3: "findPath (e_nodes e) es h ?goal False rnd = Some (Inr p3)"
        "\<not> linked es h ?goal \<longrightarrow> p3 = []" by blast
  have search: "searchAndSplice h rnd ?e1
      = (if p3 = [] then Some (Returned, ?e1)
         else Some (splice h ?e1 ?prev ?next p1 p2 p3))"
    unfolding searchAndSplice_def Let_def e1(3,4)
    by (simp add: enemyFindPath_eq [OF e1(1)] e1(2) p1(1) p2(1) p3(1))
  have "searchAndSplice h rnd ?e1 = Some (Returned, ?e1)"
  proof (cases "p3 = []")
    case True
    with search show ?thesis by simp
  next
    case False
    with p3(2) fail have "p1 = []" "p2 = []" using p1(2) p2(2) by blast+
    then have "splice h ?e1 ?prev ?next p1 p2 p3 = (Returned, ?e1)"
      using prev nxt by (simp add: splice_def nodeOf_def e1(2) Let_def)
    with search False show ?thesis by simp
  qed
  with run e1(3,4) show ?thesis by simp
qed

text \<open>
  When the search itself throws, the call ends in the \<open>catch\<close> block. That is so for an
  agent constructed without edges, and for a target that is not a node of the graph the
  agent holds. The mark of the attraction, written before the search, stays.
\<close>

lemma enemyFindPath_throws:
  assumes "a \<noteq> h" and "e_edges e = None \<or> length (e_nodes e) \<le> h"
  shows "\<exists>err. enemyFindPath e a h rnd = Some (Inl err)"
proof (cases "e_edges e")
  case None
  with assms(1) show ?thesis by (simp add: enemyFindPath_def)
next
  case (Some es)
  with assms(2) have h: "\<not> h < length (e_nodes e)" by simp
  show ?thesis
    using assms(1) Some h
    by (cases "buildGraph es (length (e_nodes e))") (simp_all add: enemyFindPath_def findPath_def)
qed

lemma reroute_search_throws:
  assumes "h \<notin> processedHoneypots e" and "attractedToNode e = None"
    and "Suc (currentPathIndex e) < length (e_path e)" and "e_path e ! currentPathIndex e \<noteq> h"
    and "e_edges e = None \<or> length (e_nodes e) \<le> h"
  shows "rerouteToNode h rnd e = Some (Caught, markAttracted h e)"
proof -
  let ?e1 = "markAttracted h e"
  have "e_path e \<noteq> []" using assms(3) by auto
  with assms have run: "rerouteToNode h rnd e = searchAndSplice h rnd ?e1"
    by (simp add: rerouteToNode_def)
  have "e_edges ?e1 = None \<or> length (e_nodes ?e1) \<le> h"
    using assms(5) by (simp add: markAttracted_fields)
  from enemyFindPath_throws [OF assms(4) this, of rnd] obtain err where
    "enemyFindPath ?e1 (e_path e ! currentPathIndex e) h rnd = Some (Inl err)" by blast
  then have "searchAndSplice h rnd ?e1 = Some (Caught, ?e1)"
    by (simp add: searchAndSplice_def Let_def markAttracted_fields)
  with run show ?thesis by simp
qed

text \<open>
  A line of three nodes, and an agent spawned on it that is attracted at once.
\<close>

definition lineNodes :: "node list" where
  "lineNodes = [\<lparr>node_id = 0, node_x = 0, node_y = 0, node_type = Source\<rparr>,
                \<lparr>node_id = 1, node_x = 100, node_y = 0, node_type = Normal\<rparr>,
                \<lparr>node_id = 2, node_x = 200, node_y = 0, node_type = Goal\<rparr>]"

definition lineEdges :: "(nat \<times> nat) list" where
  "lineEdges = [(0, 1), (1, 2)]"

definition noJitter :: "nat \<Rightarrow> real" where
  "noJitter k = 0"

definition spawnAndAttract ::
  "string \<Rightarrow> nat list \<Rightarrow> node list \<Rightarrow> (nat \<times> nat) list option \<Rightarrow> nat \<Rightarrow> (nat \<Rightarrow> real)
     \<Rightarrow> (outcome \<times> enemy) option" where
  "spawnAndAttract type path nodes edges nodeId rnd =
     (case newEnemy type path nodes edges of
        Inl err \<Rightarrow> None
      | Inr e \<Rightarrow> rerouteToNode nodeId rnd e)"

lemma not_linked_outside:
  assumes "\<forall>(a, b)\<in>set es. a \<noteq> h \<and> b \<noteq> h" and "h \<noteq> g"
  shows "\<not> linked es h g"
proof -
  have "z = h" if "(h, z) \<in> {(u, v). adjacent es u v}\<^sup>*" for z
    using that
  proof (induction rule: rtrancl_induct)
    case base
    show ?case by simp
  next
    case (step y z)
    with assms(1) show ?case by (auto simp: adjacent_def)
  qed
  with assms(2) show ?thesis unfolding linked_def by blast
qed

lemma line_agent:
  "\<exists>e. newEnemy ''BASIC'' [0, 1, 2] lineNodes edges = Inr e
     \<and> e_edges e = edges \<and> e_nodes e = lineNodes \<and> e_path e = [0, 1, 2]
     \<and> currentPathIndex e = 0 \<and> processedHoneypots e = {} \<and> attractedToNode e = None"
  by (simp add: newEnemy_def nodeAt_def ENEMIES_def lineNodes_def)

lemma stale_target_caught:
  "map_option fst (spawnAndAttract ''BASIC'' [0, 1, 2] lineNodes (Some lineEdges) 7 noJitter) = Some Caught
   \<and> map_option (e_path \<circ> snd) (spawnAndAttract ''BASIC'' [0, 1, 2] lineNodes (Some lineEdges) 7 noJitter)
       = Some [0, 1, 2]
   \<and> map_option (attractedToNode \<circ> snd)
        (spawnAndAttract ''BASIC'' [0, 1, 2] lineNodes (Some lineEdges) 7 noJitter) = Some (Some 7)"
proof -
  from line_agent [of "Some lineEdges"] obtain e where
    e: "newEnemy ''BASIC'' [0, 1, 2] lineNodes (Some lineEdges) = Inr e"
    and f: "e_edges e = Some lineEdges" "e_nodes e = lineNodes" "e_path e = [0, 1, 2]"
       "currentPathIndex e = 0" "processedHoneypots e = {}" "attractedToNode e = None"
    by blast
  have "rerouteToNode 7 noJitter e = Some (Caught, markAttracted 7 e)"
    by (rule reroute_search_throws) (simp_all add: f lineNodes_def)
  then show ?thesis
    using e f by (simp add: spawnAndAttract_def markAttracted_def)
qed

lemma no_edges_caught:
  "map_option fst (spawnAndAttract ''BASIC'' [0, 1, 2] lineNodes None 2 noJitter) = Some Caught"
proof -
  from line_agent [of None] obtain e where
    e: "newEnemy ''BASIC'' [0, 1, 2] lineNodes None = Inr e"
    and f: "e_edges e = None" "e_nodes e = lineNodes" "e_path e = [0, 1, 2]"
       "currentPathIndex e = 0" "processedHoneypots e = {}" "attractedToNode e = None"
    by blast
  have "rerouteToNode 2 noJitter e = Some (Caught, markAttracted 2 e)"
    by (rule reroute_search_throws) (simp_all add: f)
  then show ?thesis using e by (simp add: spawnAndAttract_def)
qed

text \<open>
  C8, as the code has it. An agent that holds the edges of a well-formed graph, with a
  path of node indices, and an attraction event for a node index \<open>h\<close>: when no route
  links \<open>h\<close> to the goal of the agent, or no route links either end of the edge it is
  travelling on to \<open>h\<close>, the call ends by a \<open>return\<close> statement, not in the \<open>catch\<close>
  block, and the path and the index into it are what they were. An agent without edges,
  or a target that is not a node index of its graph: the search throws, the call ends in
  the \<open>catch\<close> block, and the path and the index are what they were, but the agent is
  now marked as attracted to the target.
\<close>

theorem reroute_failure_returns:
  "(e_edges e = Some es \<and> wellFormed (e_nodes e) es
      \<and> set (e_path e) \<subseteq> {..<length (e_nodes e)} \<and> h < length (e_nodes e)
      \<and> (\<not> linked es h (last (e_path e))
           \<or> (\<not> linked es (e_path e ! currentPathIndex e) h
              \<and> \<not> linked es (e_path e ! Suc (currentPathIndex e)) h))
    \<longrightarrow> (\<exists>e'. rerouteToNode h rnd e = Some (Returned, e')
              \<and> e_path e' = e_path e \<and> currentPathIndex e' = currentPathIndex e))
   \<and> (h \<notin> processedHoneypots e \<and> attractedToNode e = None
      \<and> Suc (currentPathIndex e) < length (e_path e) \<and> e_path e ! currentPathIndex e \<noteq> h
      \<and> (e_edges e = None \<or> length (e_nodes e) \<le> h)
    \<longrightarrow> rerouteToNode h rnd e = Some (Caught, markAttracted h e)
        \<and> e_path (markAttracted h e) = e_path e
        \<and> currentPathIndex (markAttracted h e) = currentPathIndex e
        \<and> attractedToNode (markAttracted h e) = Some h)"
proof (intro conjI impI)
  assume a: "e_edges e = Some es \<and> wellFormed (e_nodes e) es
      \<and> set (e_path e) \<subseteq> {..<length (e_nodes e)} \<and> h < length (e_nodes e)
      \<and> (\<not> linked es h (last (e_path e))
           \<or> (\<not> linked es (e_path e ! currentPathIndex e) h
              \<and> \<not> linked es (e_path e ! Suc (currentPathIndex e)) h))"
  then have 1: "e_edges e = Some es" and 2: "wellFormed (e_nodes e) es"
    and 3: "set (e_path e) \<subseteq> {..<length (e_nodes e)}" and 4: "h < length (e_nodes e)"
    and 5: "\<not> linked es h (last (e_path e))
           \<or> (\<not> linked es (e_path e ! currentPathIndex e) h
              \<and> \<not> linked es (e_path e ! Suc (currentPathIndex e)) h)"
    by blast+
  show "\<exists>e'. rerouteToNode h rnd e = Some (Returned, e')
              \<and> e_path e' = e_path e \<and> currentPathIndex e' = currentPathIndex e"
    by (rule reroute_returns_on_graph [OF 1 2 3 4 5])
next
  assume b: "h \<notin> processedHoneypots e \<and> attractedToNode e = None
      \<and> Suc (currentPathIndex e) < length (e_path e) \<and> e_path e ! currentPathIndex e \<noteq> h
      \<and> (e_edges e = None \<or> length (e_nodes e) \<le> h)"
  then have 1: "h \<notin> processedHoneypots e" and 2: "attractedToNode e = None"
    and 3: "Suc (currentPathIndex e) < length (e_path e)"
    and 4: "e_path e ! currentPathIndex e \<noteq> h"
    and 5: "e_edges e = None \<or> length (e_nodes e) \<le> h"
    by blast+
  show "rerouteToNode h rnd e = Some (Caught, markAttracted h e)"
    by (rule reroute_search_throws [OF 1 2 3 4 5])
  show "e_path (markAttracted h e) = e_path e" by (simp add: markAttracted_fields)
  show "currentPathIndex (markAttracted h e) = currentPathIndex e"
    by (simp add: markAttracted_fields)
  show "attractedToNode (markAttracted h e) = Some h" by (simp add: markAttracted_def)
qed

theorem reroute_failure_returns_witness:
  "(\<exists>e e'. newEnemy ''BASIC'' [0, 1, 2]
              [\<lparr>node_id = 0, node_x = 0, node_y = 0, node_type = Source\<rparr>,
               \<lparr>node_id = 1, node_x = 100, node_y = 0, node_type = Normal\<rparr>,
               \<lparr>node_id = 2, node_x = 200, node_y = 0, node_type = Goal\<rparr>,
               \<lparr>node_id = 3, node_x = 100, node_y = 100, node_type = Normal\<rparr>]
              (Some [(0, 1), (1, 2)]) = Inr e
     \<and> rerouteToNode 3 (\<lambda>k. 0) e = Some (Returned, e')
     \<and> e_path e' = [0, 1, 2] \<and> currentPathIndex e' = 0)
   \<and> (\<exists>e. newEnemy ''BASIC'' [0, 1, 2] lineNodes None = Inr e
     \<and> rerouteToNode 2 (\<lambda>k. 0) e = Some (Caught, markAttracted 2 e)
     \<and> e_path (markAttracted 2 e) = [0, 1, 2])"
proof -
  let ?N = "[\<lparr>node_id = 0, node_x = 0, node_y = 0, node_type = Source\<rparr>,
               \<lparr>node_id = 1, node_x = 100, node_y = 0, node_type = Normal\<rparr>,
               \<lparr>node_id = 2, node_x = 200, node_y = 0, node_type = Goal\<rparr>,
               \<lparr>node_id = 3, node_x = 100, node_y = 100, node_type = Normal\<rparr>]"
  let ?E = "[(0, 1), (1, 2)] :: (nat \<times> nat) list"
  obtain e where e: "newEnemy ''BASIC'' [0, 1, 2] ?N (Some ?E) = Inr e"
    and f: "e_edges e = Some ?E" "e_nodes e = ?N" "e_path e = [0, 1, 2]" "currentPathIndex e = 0"
    by (simp add: newEnemy_def nodeAt_def ENEMIES_def)
  have wf: "wellFormed (e_nodes e) ?E" by (simp add: f wellFormed_def)
  have path: "set (e_path e) \<subseteq> {..<length (e_nodes e)}" by (simp add: f)
  have h: "3 < length (e_nodes e)" by (simp add: f)
  have "\<not> linked ?E 3 (last (e_path e))"
    by (rule not_linked_outside) (simp_all add: f)
  then have fail: "\<not> linked ?E 3 (last (e_path e))
               \<or> (\<not> linked ?E (e_path e ! currentPathIndex e) 3
                  \<and> \<not> linked ?E (e_path e ! Suc (currentPathIndex e)) 3)"
    by blast
  from reroute_failure_returns [of e ?E 3 "\<lambda>k. 0"] f(1) wf path h fail
  have "\<exists>e'. rerouteToNode 3 (\<lambda>k. 0) e = Some (Returned, e')
              \<and> e_path e' = e_path e \<and> currentPathIndex e' = currentPathIndex e"
    by blast
  with e f(3,4) have first: "\<exists>e e'. newEnemy ''BASIC'' [0, 1, 2] ?N (Some ?E) = Inr e
     \<and> rerouteToNode 3 (\<lambda>k. 0) e = Some (Returned, e')
     \<and> e_path e' = [0, 1, 2] \<and> currentPathIndex e' = 0"
    by auto
  from line_agent [of None] obtain d where
    d: "newEnemy ''BASIC'' [0, 1, 2] lineNodes None = Inr d"
    and g: "e_edges d = None" "e_nodes d = lineNodes" "e_path d = [0, 1, 2]"
       "currentPathIndex d = 0" "processedHoneypots d = {}" "attractedToNode d = None"
    by blast
  have pre: "2 \<notin> processedHoneypots d \<and> attractedToNode d = None
      \<and> Suc (currentPathIndex d) < length (e_path d) \<and> e_path d ! currentPathIndex d \<noteq> 2
      \<and> (e_edges d = None \<or> length (e_nodes d) \<le> 2)"
    by (simp add: g)
  from reroute_failure_returns [of d ?E 2 "\<lambda>k. 0"] pre
  have "rerouteToNode 2 (\<lambda>k. 0) d = Some (Caught, markAttracted 2 d)
        \<and> e_path (markAttracted 2 d) = e_path d"
    by blast
  with d g(3) have second: "\<exists>e. newEnemy ''BASIC'' [0, 1, 2] lineNodes None = Inr e
     \<and> rerouteToNode 2 (\<lambda>k. 0) e = Some (Caught, markAttracted 2 e)
     \<and> e_path (markAttracted 2 e) = [0, 1, 2]"
    by auto
  from first second show ?thesis by (rule conjI)
qed

text \<open>
  C8, as the claim states it, fails. On the line 0 - 1 - 2 no route links node 7 to the
  goal, node 7 not being a node of the graph; the attraction event for it ends in the
  \<open>catch\<close> block, not by a \<open>return\<close> statement, and leaves the agent marked as attracted
  to node 7.
\<close>

theorem reroute_failure_caught:
  "\<not> linked lineEdges 7 2
   \<and> map_option fst (spawnAndAttract ''BASIC'' [0, 1, 2] lineNodes (Some lineEdges) 7 noJitter)
       = Some Caught
   \<and> map_option (e_path \<circ> snd)
        (spawnAndAttract ''BASIC'' [0, 1, 2] lineNodes (Some lineEdges) 7 noJitter) = Some [0, 1, 2]
   \<and> map_option (attractedToNode \<circ> snd)
        (spawnAndAttract ''BASIC'' [0, 1, 2] lineNodes (Some lineEdges) 7 noJitter) = Some (Some 7)"
proof -
  have "\<not> linked lineEdges 7 2"
    by (rule not_linked_outside) (simp_all add: lineEdges_def)
  with stale_target_caught show ?thesis by blast
qed


section \<open>ChokepointAnalyzer (TopologyGenerator.identifyChokepoints)\<close>

text \<open>
  The breadth-first search shuffles the neighbours with \<open>sort(() => Math.random() - 0.5)\<close>.
  What the host's sort makes of such a comparator is its own business, but the result is
  a rearrangement of the list. The source of randomness is therefore a function that
  proposes, for the \<open>k\<close>-th shuffle of the run, an order of the list; a proposal that
  is not a rearrangement is ignored.
\<close>

type_synonym shuffler = "nat \<Rightarrow> nat list \<Rightarrow> nat list"

definition shuffle :: "shuffler \<Rightarrow> nat \<Rightarrow> nat list \<Rightarrow> nat list" where
  "shuffle orc k xs = (if sort (orc k xs) = sort xs then orc k xs else xs)"

text \<open>The loop over the neighbours of \<open>curr\<close>: queue, predecessors, visited set.\<close>

fun visitAll ::
  "nat \<Rightarrow> nat list \<Rightarrow> nat list \<times> (nat \<rightharpoonup> nat) \<times> nat set \<Rightarrow> nat list \<times> (nat \<rightharpoonup> nat) \<times> nat set" where
  "visitAll cur [] st = st"
| "visitAll cur (neighbor # rest) (queue, prev, visited) =
     visitAll cur rest
       (if neighbor \<in> visited then (queue, prev, visited)
        else (queue @ [neighbor], prev(neighbor \<mapsto> cur), insert neighbor visited))"

lemma visitAll_measure:
  assumes "visitAll cur ns (queue, prev, visited) = (queue', prev', visited')"
    and "set ns \<subseteq> U" and "finite U"
  shows "2 * card (U - visited') + length queue' \<le> 2 * card (U - visited) + length queue"
  using assms(1,2)
proof (induction ns arbitrary: queue prev visited)
  case Nil
  then show ?case by simp
next
  case (Cons n ns)
  show ?case
  proof (cases "n \<in> visited")
    case True
    with Cons show ?thesis by simp
  next
    case False
    from Cons.prems(2) have nU: "n \<in> U" and ns: "set ns \<subseteq> U" by simp_all
    from False Cons.prems(1)
    have "visitAll cur ns (queue @ [n], prev(n \<mapsto> cur), insert n visited)
            = (queue', prev', visited')" by simp
    from Cons.IH [OF this ns]
    have "2 * card (U - visited') + length queue'
            \<le> 2 * card (U - insert n visited) + length (queue @ [n])" .
    moreover have "card (U - insert n visited) < card (U - visited)"
      using nU False assms(3) by (intro psubset_card_mono) auto
    ultimately show ?thesis by simp
  qed
qed

text \<open>
  \<open>simpleBFS\<close>: the search loop. \<open>[...adj[curr]]\<close> throws when \<open>curr\<close> is not an index of
  \<open>adj\<close>. The loop returns the predecessor map and the number of shuffles made so far.
\<close>

function bfsLoop ::
  "shuffler \<Rightarrow> nat list list \<Rightarrow> nat \<Rightarrow> bool \<Rightarrow> nat list \<Rightarrow> (nat \<rightharpoonup> nat) \<Rightarrow> nat set \<Rightarrow> nat
     \<Rightarrow> error + (nat \<rightharpoonup> nat) \<times> nat" where
  "bfsLoop orc adj goal randomize [] prev visited k = Inr (prev, k)"
| "bfsLoop orc adj goal randomize (cur # queue) prev visited k =
     (if cur = goal then Inr (prev, k)
      else if cur < length adj then
        (case visitAll cur (if randomize then shuffle orc k (adj ! cur) else adj ! cur)
                (queue, prev, visited) of
           (queue', prev', visited') \<Rightarrow>
             bfsLoop orc adj goal randomize queue' prev' visited'
               (if randomize then Suc k else k))
      else Inl TypeError)"
  by pat_completeness auto
termination
proof (relation "measure (\<lambda>(orc, adj, goal, randomize, queue, prev, visited, k).
                     2 * card (set (concat adj) - visited) + length queue)", goal_cases)
  case 1
  show ?case by simp
next
  case (2 orc adj goal randomize cur queue prev visited k x y xa ya)
  let ?ns = "if randomize then shuffle orc k (adj ! cur) else adj ! cur"
  from 2(3,4) have v: "visitAll cur ?ns (queue, prev, visited) = (x, xa, ya)" by simp
  have "set (shuffle orc k (adj ! cur)) = set (adj ! cur)"
    by (simp add: shuffle_def) (metis set_sort)
  then have "set ?ns = set (adj ! cur)" by simp
  also have "\<dots> \<subseteq> set (concat adj)" using 2(2) by (auto intro: nth_mem)
  finally have sub: "set ?ns \<subseteq> set (concat adj)" .
  from visitAll_measure [OF v sub] show ?case by simp
qed

text \<open>
  The path is read back from the goal along the predecessors, as \<open>reconstructPath\<close>
  does; \<open>null\<close> when the goal has no predecessor.
\<close>

definition simpleBFS ::
  "shuffler \<Rightarrow> nat list list \<Rightarrow> nat \<Rightarrow> nat \<Rightarrow> bool \<Rightarrow> nat \<Rightarrow> (error + nat list option \<times> nat) option" where
  "simpleBFS orc adj start goal randomize k =
     (case bfsLoop orc adj goal randomize [start] Map.empty {start} k of
        Inl e \<Rightarrow> Some (Inl e)
      | Inr (prev, k') \<Rightarrow>
          (case prev goal of
             None \<Rightarrow> Some (Inr (None, k'))
           | Some c \<Rightarrow>
               (case reconstructPath prev goal [goal] of
                  None \<Rightarrow> None
                | Some path \<Rightarrow> Some (Inr (Some path, k')))))"

text \<open>
  The counters. Every node of a found path other than its two ends is an entry of an
  adjacency list, hence an index of the counters.
\<close>

fun scorePath :: "nat \<Rightarrow> nat \<Rightarrow> nat list \<Rightarrow> nat list \<Rightarrow> nat list" where
  "scorePath source goal [] nodeScore = nodeScore"
| "scorePath source goal (nodeId # rest) nodeScore =
     scorePath source goal rest
       (if nodeId \<noteq> source \<and> nodeId \<noteq> goal
        then nodeScore[nodeId := nodeScore ! nodeId + 1] else nodeScore)"

fun sampleGoals ::
  "shuffler \<Rightarrow> nat list list \<Rightarrow> nat \<Rightarrow> nat list \<Rightarrow> nat list \<times> nat \<Rightarrow> (error + nat list \<times> nat) option" where
  "sampleGoals orc adj source [] st = Some (Inr st)"
| "sampleGoals orc adj source (goal # goals) (nodeScore, k) =
     (case simpleBFS orc adj source goal True k of
        None \<Rightarrow> None
      | Some (Inl e) \<Rightarrow> Some (Inl e)
      | Some (Inr (path, k')) \<Rightarrow>
          sampleGoals orc adj source goals
            (case path of None \<Rightarrow> nodeScore | Some p \<Rightarrow> scorePath source goal p nodeScore, k'))"

fun sampleSources ::
  "shuffler \<Rightarrow> nat list list \<Rightarrow> nat list \<Rightarrow> nat list \<Rightarrow> nat list \<times> nat \<Rightarrow> (error + nat list \<times> nat) option" where
  "sampleSources orc adj [] goals st = Some (Inr st)"
| "sampleSources orc adj (source # sources) goals st =
     (case sampleGoals orc adj source goals st of
        None \<Rightarrow> None
      | Some (Inl e) \<Rightarrow> Some (Inl e)
      | Some (Inr st') \<Rightarrow> sampleSources orc adj sources goals st')"

fun sampleRounds ::
  "shuffler \<Rightarrow> nat list list \<Rightarrow> nat list \<Rightarrow> nat list \<Rightarrow> nat \<Rightarrow> nat list \<times> nat \<Rightarrow> (error + nat list \<times> nat) option" where
  "sampleRounds orc adj sources goals 0 st = Some (Inr st)"
| "sampleRounds orc adj sources goals (Suc n) st =
     (case sampleSources orc adj sources goals st of
        None \<Rightarrow> None
      | Some (Inl e) \<Rightarrow> Some (Inl e)
      | Some (Inr st') \<Rightarrow> sampleRounds orc adj sources goals n st')"

text \<open>
  The classification. \<open>Math.max()\<close> of no counter at all is \<open>-Infinity\<close>, which is not 0,
  and the loop over no counter returns the empty list. The adjacency lists are filled as
  \<open>buildGraph\<close> fills them: both directions of every edge, in the order of the edges,
  and \<open>adj[u].push(v)\<close> throws when \<open>u\<close> is not an index of \<open>adj\<close>.
\<close>

definition classify :: "nat list list \<Rightarrow> nat list \<Rightarrow> nat list" where
  "classify adj nodeScore =
     (if nodeScore = [] then []
      else (let maxScore = Max (set nodeScore)
            in if maxScore = 0 then []
               else filter (\<lambda>i. real (nodeScore ! i) / real maxScore > 0.4 \<and> length (adj ! i) \<ge> 3)
                      [0..<length nodeScore]))"

definition identifyChokepoints ::
  "shuffler \<Rightarrow> node list \<Rightarrow> (nat \<times> nat) list \<Rightarrow> nat list \<Rightarrow> nat list \<Rightarrow> (error + nat list) option" where
  "identifyChokepoints orc nodes edges sources goals =
     (case buildGraph edges (length nodes) of
        Inl e \<Rightarrow> Some (Inl e)
      | Inr adj \<Rightarrow>
          (case sampleRounds orc adj sources goals 50 (replicate (length nodes) 0, 0) of
             None \<Rightarrow> None
           | Some (Inl e) \<Rightarrow> Some (Inl e)
           | Some (Inr (nodeScore, k)) \<Rightarrow> Some (Inr (classify adj nodeScore))))"

text \<open>
  The degree of a node in the list of edges: the edges leaving it and the edges
  entering it, a loop counted twice.
\<close>

definition degree :: "(nat \<times> nat) list \<Rightarrow> nat \<Rightarrow> nat" where
  "degree edges i = length (filter (\<lambda>(a, b). a = i) edges) + length (filter (\<lambda>(a, b). b = i) edges)"

subsection \<open>The search and the sampling return\<close>

lemma chain_nodes: "chain cf r x p \<Longrightarrow> set p \<subseteq> insert r (dom cf)"
  by (induction rule: chain.induct) auto

definition bfsInv :: "nat \<Rightarrow> (nat \<rightharpoonup> nat) \<Rightarrow> nat set \<Rightarrow> bool" where
  "bfsInv start prev visited \<longleftrightarrow>
     prev start = None \<and> start \<in> visited \<and> dom prev \<subseteq> visited
     \<and> (\<forall>x\<in>visited. \<exists>p. chain prev start x p \<and> set p \<subseteq> visited)"

lemma bfsInv_visit:
  assumes inv: "bfsInv start prev visited" and cur: "cur \<in> visited" and n: "n \<notin> visited"
  shows "bfsInv start (prev(n \<mapsto> cur)) (insert n visited)"
proof -
  from inv have i: "prev start = None" "start \<in> visited" "dom prev \<subseteq> visited"
    and ch: "\<forall>x\<in>visited. \<exists>p. chain prev start x p \<and> set p \<subseteq> visited"
    unfolding bfsInv_def by blast+
  have ns: "n \<noteq> start" using i(2) n by blast
  have keep: "\<exists>p. chain (prev(n \<mapsto> cur)) start x p \<and> set p \<subseteq> insert n visited"
    if "x \<in> visited" for x
  proof -
    from ch that obtain p where p: "chain prev start x p" "set p \<subseteq> visited" by blast
    with n have "n \<notin> set p" by blast
    from chain_update_other [OF p(1) this] p(2) show ?thesis by blast
  qed
  from keep [OF cur] obtain pc where pc: "chain (prev(n \<mapsto> cur)) start cur pc"
      "set pc \<subseteq> insert n visited" by blast
  have "(prev(n \<mapsto> cur)) n = Some cur" by simp
  from chain.chain_step [OF this pc(1)]
  have "chain (prev(n \<mapsto> cur)) start n (pc @ [n])" .
  moreover have "set (pc @ [n]) \<subseteq> insert n visited" using pc(2) by simp
  ultimately
  have new: "\<exists>p. chain (prev(n \<mapsto> cur)) start n p \<and> set p \<subseteq> insert n visited" by blast
  show ?thesis unfolding bfsInv_def using i ns keep new by auto
qed

lemma visitAll_inv:
  assumes "visitAll cur ns (queue, prev, visited) = (queue', prev', visited')"
    and "bfsInv start prev visited" and "cur \<in> visited" and "set queue \<subseteq> visited"
  shows "bfsInv start prev' visited' \<and> set queue' \<subseteq> visited'"
  using assms
proof (induction ns arbitrary: queue prev visited)
  case Nil
  then show ?case by simp
next
  case (Cons n ns)
  show ?case
  proof (cases "n \<in> visited")
    case True
    with Cons show ?thesis by simp
  next
    case False
    with Cons.prems(1)
    have v: "visitAll cur ns (queue @ [n], prev(n \<mapsto> cur), insert n visited)
               = (queue', prev', visited')" by simp
    have 1: "bfsInv start (prev(n \<mapsto> cur)) (insert n visited)"
      by (rule bfsInv_visit [OF Cons.prems(2,3) False])
    have 2: "cur \<in> insert n visited" using Cons.prems(3) by simp
    have 3: "set (queue @ [n]) \<subseteq> insert n visited" using Cons.prems(4) by auto
    from Cons.IH [OF v 1 2 3] show ?thesis .
  qed
qed

lemma bfsLoop_inv:
  assumes "bfsLoop orc adj goal rz queue prev visited k = Inr (prev', k')"
    and "bfsInv start prev visited" and "set queue \<subseteq> visited"
  shows "\<exists>visited'. bfsInv start prev' visited'"
  using assms
proof (induction orc adj goal rz queue prev visited k rule: bfsLoop.induct)
  case (1 orc adj goal randomize prev visited k)
  then show ?case by auto
next
  case (2 orc adj goal randomize cur queue prev visited k)
  show ?case
  proof (cases "cur = goal")
    case True
    with "2.prems" show ?thesis by auto
  next
    case False
    with "2.prems"(1) have lt: "cur < length adj" by (simp split: if_splits)
    let ?ns = "if randomize then shuffle orc k (adj ! cur) else adj ! cur"
    obtain q1 p1 v1 where v: "visitAll cur ?ns (queue, prev, visited) = (q1, p1, v1)"
      by (cases "visitAll cur ?ns (queue, prev, visited)") auto
    have cur: "cur \<in> visited" and q: "set queue \<subseteq> visited" using "2.prems"(3) by simp_all
    from visitAll_inv [OF v "2.prems"(2) cur q]
    have i1: "bfsInv start p1 v1" and q1: "set q1 \<subseteq> v1" by blast+
    have run: "bfsLoop orc adj goal randomize q1 p1 v1 (if randomize then Suc k else k)
                 = Inr (prev', k')"
      using "2.prems"(1) False lt v by simp
    from "2.IH" [OF False lt v [symmetric] refl run i1 q1] show ?thesis .
  qed
qed

lemma simpleBFS_returns: "simpleBFS orc adj start goal rz k \<noteq> None"
proof (cases "bfsLoop orc adj goal rz [start] Map.empty {start} k")
  case (Inl e)
  then show ?thesis by (simp add: simpleBFS_def)
next
  case (Inr r)
  obtain prev' k' where r: "r = (prev', k')" by (cases r)
  have "chain Map.empty start start [start]" by (rule chain.chain_root) simp
  then have "bfsInv start Map.empty {start}" unfolding bfsInv_def by auto
  from bfsLoop_inv [OF Inr [unfolded r] this] obtain v' where inv: "bfsInv start prev' v'"
    by auto
  show ?thesis
  proof (cases "prev' goal")
    case None
    with Inr r show ?thesis by (simp add: simpleBFS_def)
  next
    case (Some c)
    then have "goal \<in> v'" using inv unfolding bfsInv_def by auto
    with inv obtain p where "chain prev' start goal p" unfolding bfsInv_def by blast
    from chain_reconstruct [OF this, of "[]"] Inr r Some show ?thesis
      by (simp add: simpleBFS_def)
  qed
qed

lemma sampleGoals_returns: "sampleGoals orc adj source goals st \<noteq> None"
proof (induction goals arbitrary: st)
  case Nil
  then show ?case by simp
next
  case (Cons goal goals)
  obtain sc k where st: "st = (sc, k)" by (cases st)
  from simpleBFS_returns [of orc adj source goal True k] Cons.IH show ?case
    unfolding st by (auto split: option.splits sum.splits prod.splits)
qed

lemma sampleSources_returns: "sampleSources orc adj sources goals st \<noteq> None"
proof (induction sources arbitrary: st)
  case Nil
  then show ?case by simp
next
  case (Cons source sources)
  from sampleGoals_returns [of orc adj source goals st] Cons.IH show ?case
    by (auto split: option.splits sum.splits)
qed

lemma sampleRounds_returns: "sampleRounds orc adj sources goals n st \<noteq> None"
proof (induction n arbitrary: st)
  case 0
  then show ?case by simp
next
  case (Suc n)
  from sampleSources_returns [of orc adj sources goals st] Suc.IH show ?case
    by (auto split: option.splits sum.splits)
qed

lemma identifyChokepoints_returns: "identifyChokepoints orc nodes edges sources goals \<noteq> None"
proof (cases "buildGraph edges (length nodes)")
  case (Inl e)
  then show ?thesis by (simp add: identifyChokepoints_def)
next
  case (Inr adj)
  from sampleRounds_returns [of orc adj sources goals 50 "(replicate (length nodes) 0, 0)"]
  obtain r where "sampleRounds orc adj sources goals 50 (replicate (length nodes) 0, 0) = Some r"
    by auto
  with Inr show ?thesis
    by (cases r) (auto simp: identifyChokepoints_def split: prod.splits)
qed

subsection \<open>No error on a graph whose edges join node indices\<close>

lemma set_shuffle: "set (shuffle orc k xs) = set xs"
  by (simp add: shuffle_def) (metis set_sort)

lemma visitAll_range:
  assumes "visitAll cur ns (queue, prev, visited) = (queue', prev', visited')"
    and "set ns \<subseteq> R" and "set queue \<subseteq> R"
  shows "set queue' \<subseteq> R"
  using assms
proof (induction ns arbitrary: queue prev visited)
  case Nil
  then show ?case by simp
next
  case (Cons n ns)
  show ?case
  proof (cases "n \<in> visited")
    case True
    with Cons show ?thesis by simp
  next
    case False
    with Cons.prems(1)
    have v: "visitAll cur ns (queue @ [n], prev(n \<mapsto> cur), insert n visited)
               = (queue', prev', visited')" by simp
    from Cons.IH [OF v] Cons.prems(2,3) show ?thesis by simp
  qed
qed

lemma bfsLoop_ok:
  assumes "\<forall>c<length adj. set (adj ! c) \<subseteq> {..<length adj}" and "set queue \<subseteq> {..<length adj}"
  shows "\<exists>r. bfsLoop orc adj goal rz queue prev visited k = Inr r"
  using assms
proof (induction orc adj goal rz queue prev visited k rule: bfsLoop.induct)
  case (1 orc adj goal randomize prev visited k)
  then show ?case by simp
next
  case (2 orc adj goal randomize cur queue prev visited k)
  show ?case
  proof (cases "cur = goal")
    case True
    then show ?thesis by simp
  next
    case False
    from "2.prems"(2) have lt: "cur < length adj" and q: "set queue \<subseteq> {..<length adj}"
      by simp_all
    let ?ns = "if randomize then shuffle orc k (adj ! cur) else adj ! cur"
    obtain q1 p1 v1 where v: "visitAll cur ?ns (queue, prev, visited) = (q1, p1, v1)"
      by (cases "visitAll cur ?ns (queue, prev, visited)") auto
    have "set ?ns \<subseteq> {..<length adj}" using "2.prems"(1) lt by (simp add: set_shuffle)
    from visitAll_range [OF v this q] have q1: "set q1 \<subseteq> {..<length adj}" .
    from "2.IH" [OF False lt v [symmetric] refl "2.prems"(1) q1] False lt v
    show ?thesis by simp
  qed
qed

lemma simpleBFS_ok:
  assumes "\<forall>c<length adj. set (adj ! c) \<subseteq> {..<length adj}" and "start < length adj"
  shows "\<exists>path k'. simpleBFS orc adj start goal rz k = Some (Inr (path, k'))"
proof -
  from bfsLoop_ok [OF assms(1), of "[start]" orc goal rz Map.empty "{start}" k] assms(2)
  obtain prev' k' where r: "bfsLoop orc adj goal rz [start] Map.empty {start} k = Inr (prev', k')"
    by auto
  from simpleBFS_returns [of orc adj start goal rz k] r show ?thesis
    by (auto simp: simpleBFS_def split: option.splits)
qed

lemma length_scorePath: "length (scorePath source goal p sc) = length sc"
  by (induction p arbitrary: sc) auto

lemma sampleGoals_ok:
  assumes "\<forall>c<length adj. set (adj ! c) \<subseteq> {..<length adj}" and "source < length adj"
  shows "\<exists>sc' k'. sampleGoals orc adj source goals (sc, k) = Some (Inr (sc', k'))
                  \<and> length sc' = length sc"
proof (induction goals arbitrary: sc k)
  case Nil
  then show ?case by simp
next
  case (Cons goal goals)
  from simpleBFS_ok [OF assms, of orc goal True k] obtain path k1 where
    b: "simpleBFS orc adj source goal True k = Some (Inr (path, k1))" by blast
  let ?sc1 = "case path of None \<Rightarrow> sc | Some p \<Rightarrow> scorePath source goal p sc"
  have len: "length ?sc1 = length sc" by (cases path) (simp_all add: length_scorePath)
  from Cons.IH [of ?sc1 k1] len b show ?case by auto
qed

lemma sampleSources_ok:
  assumes "\<forall>c<length adj. set (adj ! c) \<subseteq> {..<length adj}" and "set sources \<subseteq> {..<length adj}"
  shows "\<exists>sc' k'. sampleSources orc adj sources goals (sc, k) = Some (Inr (sc', k'))
                  \<and> length sc' = length sc"
  using assms(2)
proof (induction sources arbitrary: sc k)
  case Nil
  then show ?case by simp
next
  case (Cons source sources)
  from Cons.prems have s: "source < length adj" and rest: "set sources \<subseteq> {..<length adj}"
    by simp_all
  from sampleGoals_ok [OF assms(1) s, of orc goals sc k] obtain sc1 k1 where
    g: "sampleGoals orc adj source goals (sc, k) = Some (Inr (sc1, k1))" "length sc1 = length sc"
    by blast
  from Cons.IH [OF rest, of sc1 k1] g show ?case by auto
qed

lemma sampleRounds_ok:
  assumes "\<forall>c<length adj. set (adj ! c) \<subseteq> {..<length adj}" and "set sources \<subseteq> {..<length adj}"
  shows "\<exists>sc' k'. sampleRounds orc adj sources goals n (sc, k) = Some (Inr (sc', k'))
                  \<and> length sc' = length sc"
proof (induction n arbitrary: sc k)
  case 0
  then show ?case by simp
next
  case (Suc n)
  from sampleSources_ok [OF assms, of orc goals sc k] obtain sc1 k1 where
    g: "sampleSources orc adj sources goals (sc, k) = Some (Inr (sc1, k1))" "length sc1 = length sc"
    by blast
  from Suc.IH [of sc1 k1] g show ?case by auto
qed

lemma buildGraph_neighbours:
  assumes "buildGraph edges n = Inr adj"
  shows "\<forall>c<length adj. set (adj ! c) \<subseteq> {..<length adj}"
proof (intro allI impI subsetI)
  fix c b assume c: "c < length adj" and b: "b \<in> set (adj ! c)"
  from buildGraph_ok [OF assms] c b have "adjacent edges c b"
    and rng: "\<forall>(a, b)\<in>set edges. a < n \<and> b < n" and len: "length adj = n" by auto
  then show "b \<in> {..<length adj}" by (auto simp: adjacent_def)
qed

lemma identifyChokepoints_ok:
  assumes "wellFormed nodes edges" and "set sources \<subseteq> {..<length nodes}"
  shows "\<exists>adj sc k. buildGraph edges (length nodes) = Inr adj
           \<and> sampleRounds orc adj sources goals 50 (replicate (length nodes) 0, 0) = Some (Inr (sc, k))
           \<and> length sc = length nodes
           \<and> identifyChokepoints orc nodes edges sources goals = Some (Inr (classify adj sc))"
proof -
  from buildGraph_total [OF assms(1)] obtain adj where adj: "buildGraph edges (length nodes) = Inr adj"
    by blast
  have len: "length adj = length nodes" by (rule buildGraph_ok(1) [OF adj])
  from sampleRounds_ok [OF buildGraph_neighbours [OF adj], of sources orc goals 50
      "replicate (length nodes) 0" 0] assms(2) len
  obtain sc k where
    s: "sampleRounds orc adj sources goals 50 (replicate (length nodes) 0, 0) = Some (Inr (sc, k))"
       "length sc = length nodes" by auto
  with adj show ?thesis by (simp add: identifyChokepoints_def)
qed

lemma identifyChokepoints_result:
  assumes "identifyChokepoints orc nodes edges sources goals = Some (Inr cps)"
  shows "\<exists>adj sc k. buildGraph edges (length nodes) = Inr adj
           \<and> sampleRounds orc adj sources goals 50 (replicate (length nodes) 0, 0) = Some (Inr (sc, k))
           \<and> cps = classify adj sc"
  using assms
  by (auto simp: identifyChokepoints_def split: sum.splits option.splits prod.splits)

lemma classify_set:
  "set (classify adj sc)
     = {i. i < length sc \<and> real (sc ! i) / real (Max (set sc)) > 0.4 \<and> 3 \<le> length (adj ! i)}"
proof (cases "sc = []")
  case True
  then show ?thesis by (simp add: classify_def)
next
  case False
  show ?thesis
  proof (cases "Max (set sc) = 0")
    case True
    with False show ?thesis by (simp add: classify_def)
  next
    case nz: False
    with False show ?thesis by (auto simp: classify_def Let_def)
  qed
qed

lemma classify_sorted: "sorted (classify adj sc) \<and> distinct (classify adj sc)"
  by (simp add: classify_def Let_def sorted_wrt_filter)

lemma classify_zero: "sc \<noteq> [] \<Longrightarrow> Max (set sc) = 0 \<Longrightarrow> classify adj sc = []"
  by (simp add: classify_def)

subsection \<open>Counters, degrees and the source of randomness\<close>

lemma buildGraph_edges_degree:
  assumes "buildGraph_edges es g = Inr G" and "i < length g"
  shows "length (G ! i) = length (g ! i) + degree es i"
  using assms
proof (induction es arbitrary: g)
  case Nil
  then show ?case by (simp add: degree_def)
next
  case (Cons e es)
  obtain a b where e: "e = (a, b)" by (cases e)
  let ?g1 = "g[a := g ! a @ [b]]"
  let ?g2 = "?g1[b := ?g1 ! b @ [a]]"
  from Cons.prems(1) e have a: "a < length g" and b: "b < length g"
    and r: "buildGraph_edges es ?g2 = Inr G"
    by (auto simp: Let_def split: if_splits)
  from Cons.IH [OF r] Cons.prems(2) have "length (G ! i) = length (?g2 ! i) + degree es i" by simp
  moreover have "length (?g2 ! i) = length (g ! i) + (if a = i then 1 else 0) + (if b = i then 1 else 0)"
    using a b Cons.prems(2) by (auto simp: nth_list_update)
  moreover have "degree (e # es) i = (if a = i then 1 else 0) + (if b = i then 1 else 0) + degree es i"
    by (simp add: degree_def e)
  ultimately show ?case by simp
qed

lemma buildGraph_degree:
  assumes "buildGraph edges n = Inr adj" and "i < n"
  shows "length (adj ! i) = degree edges i"
  using buildGraph_edges_degree [OF assms(1) [unfolded buildGraph_def], of i] assms(2) by simp

lemma sampleGoals_length:
  "sampleGoals orc adj source goals (sc, k) = Some (Inr (sc', k')) \<Longrightarrow> length sc' = length sc"
proof (induction goals arbitrary: sc k)
  case Nil
  then show ?case by simp
next
  case (Cons goal goals)
  from Cons.prems obtain path k1 where
    b: "simpleBFS orc adj source goal True k = Some (Inr (path, k1))"
    and r: "sampleGoals orc adj source goals
              (case path of None \<Rightarrow> sc | Some p \<Rightarrow> scorePath source goal p sc, k1) = Some (Inr (sc', k'))"
    by (auto split: option.splits sum.splits)
  from Cons.IH [OF r] show ?case by (cases path) (simp_all add: length_scorePath)
qed

lemma sampleSources_length:
  "sampleSources orc adj sources goals (sc, k) = Some (Inr (sc', k')) \<Longrightarrow> length sc' = length sc"
proof (induction sources arbitrary: sc k)
  case Nil
  then show ?case by simp
next
  case (Cons source sources)
  from Cons.prems obtain sc1 k1 where
    g: "sampleGoals orc adj source goals (sc, k) = Some (Inr (sc1, k1))"
    and r: "sampleSources orc adj sources goals (sc1, k1) = Some (Inr (sc', k'))"
    by (auto split: option.splits sum.splits)
  from Cons.IH [OF r] sampleGoals_length [OF g] show ?case by simp
qed

lemma sampleRounds_length:
  "sampleRounds orc adj sources goals n (sc, k) = Some (Inr (sc', k')) \<Longrightarrow> length sc' = length sc"
proof (induction n arbitrary: sc k)
  case 0
  then show ?case by simp
next
  case (Suc n)
  from Suc.prems obtain sc1 k1 where
    g: "sampleSources orc adj sources goals (sc, k) = Some (Inr (sc1, k1))"
    and r: "sampleRounds orc adj sources goals n (sc1, k1) = Some (Inr (sc', k'))"
    by (auto split: option.splits sum.splits)
  from Suc.IH [OF r] sampleSources_length [OF g] show ?case by simp
qed

text \<open>The result depends on the source of randomness only through the shuffles it makes.\<close>

lemma bfsLoop_cong:
  assumes "\<forall>j xs. shuffle orc' j xs = shuffle orc j xs"
  shows "bfsLoop orc' adj goal rz queue prev visited k = bfsLoop orc adj goal rz queue prev visited k"
  using assms
proof (induction orc adj goal rz queue prev visited k rule: bfsLoop.induct)
  case (1 orc adj goal randomize prev visited k)
  then show ?case by simp
next
  case (2 orc adj goal randomize cur queue prev visited k)
  show ?case
  proof (cases "cur \<noteq> goal \<and> cur < length adj")
    case False
    then show ?thesis by auto
  next
    case True
    then have ne: "cur \<noteq> goal" and lt: "cur < length adj" by simp_all
    let ?ns = "if randomize then shuffle orc k (adj ! cur) else adj ! cur"
    obtain q1 p1 v1 where v: "visitAll cur ?ns (queue, prev, visited) = (q1, p1, v1)"
      by (cases "visitAll cur ?ns (queue, prev, visited)") auto
    have same: "(if randomize then shuffle orc' k (adj ! cur) else adj ! cur) = ?ns"
      using "2.prems" by simp
    from "2.IH" [OF ne lt v [symmetric] refl "2.prems"] ne lt v same
    show ?thesis by simp
  qed
qed

lemma simpleBFS_cong:
  assumes "\<forall>j xs. shuffle orc' j xs = shuffle orc j xs"
  shows "simpleBFS orc' adj start goal rz k = simpleBFS orc adj start goal rz k"
  by (simp only: simpleBFS_def bfsLoop_cong [OF assms])

lemma sampleGoals_cong:
  assumes "\<forall>j xs. shuffle orc' j xs = shuffle orc j xs"
  shows "sampleGoals orc' adj source goals st = sampleGoals orc adj source goals st"
proof (induction goals arbitrary: st)
  case Nil
  then show ?case by simp
next
  case (Cons goal goals)
  obtain sc k where st: "st = (sc, k)" by (cases st)
  show ?case
    unfolding st sampleGoals.simps simpleBFS_cong [OF assms]
    by (simp add: Cons.IH split: option.split sum.split)
qed

lemma sampleSources_cong:
  assumes "\<forall>j xs. shuffle orc' j xs = shuffle orc j xs"
  shows "sampleSources orc' adj sources goals st = sampleSources orc adj sources goals st"
  by (induction sources arbitrary: st)
     (simp_all add: sampleGoals_cong [OF assms] split: option.split sum.split)

lemma sampleRounds_cong:
  assumes "\<forall>j xs. shuffle orc' j xs = shuffle orc j xs"
  shows "sampleRounds orc' adj sources goals n st = sampleRounds orc adj sources goals n st"
  by (induction n arbitrary: st)
     (simp_all add: sampleSources_cong [OF assms] split: option.split sum.split)

lemma identifyChokepoints_cong:
  assumes "\<forall>j xs. shuffle orc' j xs = shuffle orc j xs"
  shows "identifyChokepoints orc' nodes edges sources goals
           = identifyChokepoints orc nodes edges sources goals"
  by (simp add: identifyChokepoints_def sampleRounds_cong [OF assms] cong: sum.case_cong)

subsection \<open>A diamond with a diagonal, sampled in two ways\<close>

text \<open>
  Four nodes, source 0 and goal 3, the two middle nodes joined to the source, to the goal
  and to each other. \<open>keepOrder\<close> stands for a run in which every comparison leaves the
  neighbours as they are, \<open>swapFirst\<close> for a run in which the two neighbours of the source
  change places.
\<close>

definition diamondNodes :: "node list" where
  "diamondNodes = [\<lparr>node_id = 0, node_x = 0, node_y = 100, node_type = Source\<rparr>,
                   \<lparr>node_id = 1, node_x = 100, node_y = 0, node_type = Normal\<rparr>,
                   \<lparr>node_id = 2, node_x = 100, node_y = 200, node_type = Normal\<rparr>,
                   \<lparr>node_id = 3, node_x = 200, node_y = 100, node_type = Goal\<rparr>]"

definition diamondEdges :: "(nat \<times> nat) list" where
  "diamondEdges = [(0, 1), (0, 2), (1, 2), (1, 3), (2, 3)]"

definition keepOrder :: shuffler where
  "keepOrder k xs = xs"

definition swapFirst :: shuffler where
  "swapFirst k xs = (if xs = [1, 2] then [2, 1] else xs)"

definition diamondAdj :: "nat list list" where
  "diamondAdj = [[1, 2], [0, 2, 3], [0, 1, 3], [1, 2]]"

lemma diamond_graph: "buildGraph diamondEdges (length diamondNodes) = Inr diamondAdj"
  by (simp add: buildGraph_def diamondEdges_def diamondNodes_def diamondAdj_def Let_def)

lemma bfs_keepOrder:
  "bfsLoop keepOrder diamondAdj 3 True [0] Map.empty {0} k
     = Inr ([1 \<mapsto> 0, 2 \<mapsto> 0, 3 \<mapsto> 1], Suc (Suc (Suc k)))"
  by (simp add: shuffle_def keepOrder_def diamondAdj_def)

lemma bfs_swapFirst:
  "bfsLoop swapFirst diamondAdj 3 True [0] Map.empty {0} k
     = Inr ([2 \<mapsto> 0, 1 \<mapsto> 0, 3 \<mapsto> 2], Suc (Suc (Suc k)))"
  by (simp add: shuffle_def swapFirst_def diamondAdj_def)

lemma path_keepOrder:
  "reconstructPath [1 \<mapsto> 0, 2 \<mapsto> 0, 3 \<mapsto> 1::nat] 3 [3::nat] = Some [0, 1, 3]"
proof -
  let ?cf = "[1 \<mapsto> 0, 2 \<mapsto> 0, 3 \<mapsto> 1::nat] :: nat \<rightharpoonup> nat"
  have "chain ?cf 0 0 [0]" by (rule chain.chain_root) simp
  then have "chain ?cf 0 1 ([0] @ [1])" by (rule chain.chain_step [rotated]) simp
  then have "chain ?cf 0 3 (([0] @ [1]) @ [3])" by (rule chain.chain_step [rotated]) simp
  from chain_reconstruct [OF this, of "[]"] show ?thesis by simp
qed

lemma path_swapFirst:
  "reconstructPath [2 \<mapsto> 0, 1 \<mapsto> 0, 3 \<mapsto> 2::nat] 3 [3::nat] = Some [0, 2, 3]"
proof -
  let ?cf = "[2 \<mapsto> 0, 1 \<mapsto> 0, 3 \<mapsto> 2::nat] :: nat \<rightharpoonup> nat"
  have "chain ?cf 0 0 [0]" by (rule chain.chain_root) simp
  then have "chain ?cf 0 2 ([0] @ [2])" by (rule chain.chain_step [rotated]) simp
  then have "chain ?cf 0 3 (([0] @ [2]) @ [3])" by (rule chain.chain_step [rotated]) simp
  from chain_reconstruct [OF this, of "[]"] show ?thesis by simp
qed

lemma simpleBFS_keepOrder:
  "simpleBFS keepOrder diamondAdj 0 3 True k = Some (Inr (Some [0, 1, 3], Suc (Suc (Suc k))))"
  unfolding simpleBFS_def bfs_keepOrder using path_keepOrder by simp

lemma simpleBFS_swapFirst:
  "simpleBFS swapFirst diamondAdj 0 3 True k = Some (Inr (Some [0, 2, 3], Suc (Suc (Suc k))))"
  unfolding simpleBFS_def bfs_swapFirst using path_swapFirst by simp

lemma rounds_keepOrder:
  "sampleRounds keepOrder diamondAdj [0] [3] n ([0, c, 0, 0], k)
     = Some (Inr ([0, c + n, 0, 0], k + 3 * n))"
  by (induction n arbitrary: c k) (simp_all add: simpleBFS_keepOrder)

lemma rounds_swapFirst:
  "sampleRounds swapFirst diamondAdj [0] [3] n ([0, 0, c, 0], k)
     = Some (Inr ([0, 0, c + n, 0], k + 3 * n))"
  by (induction n arbitrary: c k) (simp_all add: simpleBFS_swapFirst)

lemma classify_keepOrder: "classify diamondAdj [0, 50, 0, 0] = [1]"
proof -
  have m: "Max (set [0, 50, 0, 0::nat]) = 50" by simp
  have u: "[0..<length [0, 50, 0, 0::nat]] = [0, 1, 2, 3]" by (simp add: upt_rec)
  show ?thesis unfolding classify_def m u Let_def by (simp add: diamondAdj_def)
qed

lemma classify_swapFirst: "classify diamondAdj [0, 0, 50, 0] = [2]"
proof -
  have m: "Max (set [0, 0, 50, 0::nat]) = 50" by simp
  have u: "[0..<length [0, 0, 50, 0::nat]] = [0, 1, 2, 3]" by (simp add: upt_rec)
  show ?thesis unfolding classify_def m u Let_def by (simp add: diamondAdj_def)
qed

lemma identify_keepOrder:
  "identifyChokepoints keepOrder diamondNodes diamondEdges [0] [3] = Some (Inr [1])"
proof -
  have n: "replicate (length diamondNodes) (0::nat) = [0, 0, 0, 0]"
    by (simp add: diamondNodes_def)
  from rounds_keepOrder [of 50 0 0] show ?thesis
    unfolding identifyChokepoints_def diamond_graph n by (simp add: classify_keepOrder)
qed

lemma identify_swapFirst:
  "identifyChokepoints swapFirst diamondNodes diamondEdges [0] [3] = Some (Inr [2])"
proof -
  have n: "replicate (length diamondNodes) (0::nat) = [0, 0, 0, 0]"
    by (simp add: diamondNodes_def)
  from rounds_swapFirst [of 50 0 0] show ?thesis
    unfolding identifyChokepoints_def diamond_graph n by (simp add: classify_swapFirst)
qed

text \<open>
  C4, as the code has it. \<open>identifyChokepoints\<close> takes no seed and always samples 50
  rounds; it always returns or throws, and returns a list when the edges join node
  indices and the sources are node indices. Whenever it returns a list, the list holds
  exactly the nodes whose visit counter, divided by the largest counter, exceeds 0.4 and
  whose degree is at least 3, and it is empty when the largest counter is 0. The result
  depends on the source of randomness only through the shuffles it makes: two sources
  making the same shuffles give the same result.
\<close>

theorem identifyChokepoints_threshold:
  "identifyChokepoints orc nodes edges sources goals \<noteq> None
   \<and> (wellFormed nodes edges \<and> set sources \<subseteq> {..<length nodes} \<longrightarrow>
        (\<exists>cps. identifyChokepoints orc nodes edges sources goals = Some (Inr cps)))
   \<and> (\<forall>cps. identifyChokepoints orc nodes edges sources goals = Some (Inr cps) \<longrightarrow>
        (\<exists>adj nodeScore k.
            buildGraph edges (length nodes) = Inr adj
          \<and> sampleRounds orc adj sources goals 50 (replicate (length nodes) 0, 0)
               = Some (Inr (nodeScore, k))
          \<and> length nodeScore = length nodes
          \<and> set cps = {i. i < length nodes
                          \<and> real (nodeScore ! i) / real (Max (set nodeScore)) > 0.4
                          \<and> 3 \<le> degree edges i}
          \<and> (Max (set nodeScore) = 0 \<longrightarrow> cps = [])))
   \<and> (\<forall>orc'. (\<forall>j xs. shuffle orc' j xs = shuffle orc j xs) \<longrightarrow>
        identifyChokepoints orc' nodes edges sources goals
          = identifyChokepoints orc nodes edges sources goals)"
proof -
  have a: "identifyChokepoints orc nodes edges sources goals \<noteq> None"
    by (rule identifyChokepoints_returns)
  have b: "\<exists>cps. identifyChokepoints orc nodes edges sources goals = Some (Inr cps)"
    if "wellFormed nodes edges \<and> set sources \<subseteq> {..<length nodes}"
    using identifyChokepoints_ok [of nodes edges sources orc goals] that by blast
  have c: "\<exists>adj nodeScore k.
            buildGraph edges (length nodes) = Inr adj
          \<and> sampleRounds orc adj sources goals 50 (replicate (length nodes) 0, 0)
               = Some (Inr (nodeScore, k))
          \<and> length nodeScore = length nodes
          \<and> set cps = {i. i < length nodes
                          \<and> real (nodeScore ! i) / real (Max (set nodeScore)) > 0.4
                          \<and> 3 \<le> degree edges i}
          \<and> (Max (set nodeScore) = 0 \<longrightarrow> cps = [])"
    if r: "identifyChokepoints orc nodes edges sources goals = Some (Inr cps)" for cps
  proof -
    from identifyChokepoints_result [OF r] obtain adj sc k where
      g: "buildGraph edges (length nodes) = Inr adj"
      and s: "sampleRounds orc adj sources goals 50 (replicate (length nodes) 0, 0) = Some (Inr (sc, k))"
      and cps: "cps = classify adj sc" by blast
    from sampleRounds_length [OF s] have len: "length sc = length nodes" by simp
    have deg: "length (adj ! i) = degree edges i" if "i < length nodes" for i
      by (rule buildGraph_degree [OF g that])
    have mem: "set cps = {i. i < length nodes
                          \<and> real (sc ! i) / real (Max (set sc)) > 0.4
                          \<and> 3 \<le> degree edges i}"
      unfolding cps classify_set len using deg by auto
    have zero: "Max (set sc) = 0 \<longrightarrow> cps = []"
      unfolding cps by (simp add: classify_def)
    show ?thesis
      by (rule exI [where x = adj], rule exI [where x = sc], rule exI [where x = k])
         (use g s len mem zero in blast)
  qed
  have d: "identifyChokepoints orc' nodes edges sources goals
             = identifyChokepoints orc nodes edges sources goals"
    if "\<forall>j xs. shuffle orc' j xs = shuffle orc j xs" for orc'
    by (rule identifyChokepoints_cong [OF that])
  show ?thesis
  proof (intro conjI allI impI)
    show "identifyChokepoints orc nodes edges sources goals \<noteq> None" by (rule a)
  next
    assume "wellFormed nodes edges \<and> set sources \<subseteq> {..<length nodes}"
    then show "\<exists>cps. identifyChokepoints orc nodes edges sources goals = Some (Inr cps)"
      by (rule b)
  next
    fix cps assume "identifyChokepoints orc nodes edges sources goals = Some (Inr cps)"
    then show "\<exists>adj nodeScore k.
            buildGraph edges (length nodes) = Inr adj
          \<and> sampleRounds orc adj sources goals 50 (replicate (length nodes) 0, 0)
               = Some (Inr (nodeScore, k))
          \<and> length nodeScore = length nodes
          \<and> set cps = {i. i < length nodes
                          \<and> real (nodeScore ! i) / real (Max (set nodeScore)) > 0.4
                          \<and> 3 \<le> degree edges i}
          \<and> (Max (set nodeScore) = 0 \<longrightarrow> cps = [])"
      by (rule c)
  next
    fix orc' assume "\<forall>j xs. shuffle orc' j xs = shuffle orc j xs"
    then show "identifyChokepoints orc' nodes edges sources goals
             = identifyChokepoints orc nodes edges sources goals"
      by (rule d)
  qed
qed

theorem identifyChokepoints_threshold_witness:
  "wellFormed diamondNodes diamondEdges \<and> set [0] \<subseteq> {..<length diamondNodes}
   \<and> identifyChokepoints keepOrder diamondNodes diamondEdges [0] [3] = Some (Inr [1])
   \<and> (\<exists>nodeScore.
         set [1] = {i. i < length diamondNodes
                       \<and> real (nodeScore ! i) / real (Max (set nodeScore)) > 0.4
                       \<and> 3 \<le> degree diamondEdges i})"
proof -
  have wf: "wellFormed diamondNodes diamondEdges"
    by (simp add: wellFormed_def diamondNodes_def diamondEdges_def)
  have src: "set [0] \<subseteq> {..<length diamondNodes}" by (simp add: diamondNodes_def)
  have r: "identifyChokepoints keepOrder diamondNodes diamondEdges [0] [3] = Some (Inr [1])"
    by (rule identify_keepOrder)
  from identifyChokepoints_threshold [of keepOrder diamondNodes diamondEdges "[0]" "[3]"] r
  have "\<exists>nodeScore.
         set [1] = {i. i < length diamondNodes
                       \<and> real (nodeScore ! i) / real (Max (set nodeScore)) > 0.4
                       \<and> 3 \<le> degree diamondEdges i}"
    by blast
  with wf src r show ?thesis by blast
qed

text \<open>
  C4, as the claim states it, fails: nothing fixes the shuffles. On the same graph, with
  the same sources and goals and the same 50 rounds, the run that leaves every neighbour
  list in order returns node 1 and the run that swaps the neighbours of the source
  returns node 2.
\<close>

theorem identifyChokepoints_depends_on_draws:
  "identifyChokepoints keepOrder diamondNodes diamondEdges [0] [3] = Some (Inr [1])
   \<and> identifyChokepoints swapFirst diamondNodes diamondEdges [0] [3] = Some (Inr [2])"
  using identify_keepOrder identify_swapFirst by simp

end
